theory Spec2Isabelle
  imports Complex_Main "HOL-Library.Word" "HOL-Library.Signed_Division"
begin

section \<open>Concurrent selfplay: data model\<close>

text \<open>
  The development embeds \<^verbatim>\<open>cc/concurrent_selfplay.cc\<close>: the per-game agent
  \<^verbatim>\<open>SelfplayGame\<close> (\<^verbatim>\<open>SelectLeaves\<close>, \<^verbatim>\<open>MaybeQueueInference\<close>,
  \<^verbatim>\<open>ProcessInferences\<close>, \<^verbatim>\<open>MaybePlayMove\<close>, \<^verbatim>\<open>ShouldFastplay\<close>,
  \<^verbatim>\<open>ShouldResign\<close>), the slot management of \<^verbatim>\<open>SelfplayThread\<close> and the start-up
  code of \<^verbatim>\<open>Selfplayer\<close>.

  The classes \<^verbatim>\<open>MctsTree\<close>, \<^verbatim>\<open>MctsNode\<close>, \<^verbatim>\<open>Position\<close>, \<^verbatim>\<open>Random\<close>,
  \<^verbatim>\<open>InferenceCache\<close> and \<^verbatim>\<open>Game\<close> are declared in headers that are not part of the
  sources. The tree is represented by the sequence of calls the selfplay code has made on
  it; what the tree answers is a parameter (a record of functions of that call history),
  so every theorem holds for every deterministic tree implementation.

  C++ \<^verbatim>\<open>int\<close> values are mathematical integers here (signed overflow is undefined
  behaviour in C++; the arithmetic of \<^verbatim>\<open>ParseFlags\<close> on the 32-bit flags reports it
  as an error), \<^verbatim>\<open>float\<close> and \<^verbatim>\<open>double\<close> values are reals (only comparisons
  are made on them; the narrowing of a \<^verbatim>\<open>double\<close> flag to a \<^verbatim>\<open>float\<close> option is
  the parameter \<open>float_of_double\<close>), \<^verbatim>\<open>uint64_t\<close> is a 64-bit word. Log output (\<^verbatim>\<open>MG_LOG\<close>) and tracing
  (\<^verbatim>\<open>WTF_SCOPE\<close>) are left out: they read the state and do not change it.
\<close>

type_synonym MctsNode = nat
  \<comment> \<open>a node handle (\<^verbatim>\<open>MctsNode*\<close>); \<^verbatim>\<open>nullptr\<close> is \<open>None\<close> of an option\<close>

type_synonym Position = nat
  \<comment> \<open>an opaque board position\<close>

type_synonym Random = nat
  \<comment> \<open>the state of a random number generator\<close>

type_synonym Symmetry = nat

datatype Color = kBlack | kWhite

datatype Coord = kPass | kResign | kPoint nat

text \<open>Modelled from the spec: \<^verbatim>\<open>OtherColor\<close> (cc/color.h is not part of the sources):
  the opponent of a colour.\<close>

fun OtherColor :: "Color \<Rightarrow> Color" where
  "OtherColor kBlack = kWhite"
| "OtherColor kWhite = kBlack"

record ModelOutput =
  policy :: "real list"
  out_value :: real

type_synonym CacheKey = "Coord \<times> Symmetry \<times> Position"
  \<comment> \<open>\<^verbatim>\<open>InferenceCache::Key(move, canonical_symmetry, position)\<close>\<close>

text \<open>\<^verbatim>\<open>struct Inference\<close>; the \<^verbatim>\<open>ModelInput\<close> is flattened into its two fields.\<close>

record Inference =
  cache_key :: CacheKey
  leaf :: MctsNode
  input_sym :: Symmetry
  input_position_history :: "Position list"
  inf_output :: ModelOutput

text \<open>The value-initialised \<^verbatim>\<open>ModelOutput\<close> of a freshly emplaced \<^verbatim>\<open>Inference\<close>.\<close>

definition empty_ModelOutput :: ModelOutput where
  "empty_ModelOutput = \<lparr>policy = [], out_value = 0\<rparr>"

text \<open>\<^verbatim>\<open>InferenceCache::TryGet(key, canonical_sym, inference_sym, &output)\<close>: \<open>None\<close> is a
  miss. The cache of \<^verbatim>\<open>NullInferenceCache\<close> always misses.\<close>

type_synonym InferenceCache = "CacheKey \<Rightarrow> Symmetry \<Rightarrow> Symmetry \<Rightarrow> ModelOutput option"

definition null_cache :: InferenceCache where
  "null_cache = (\<lambda>key canonical_sym inference_sym. None)"

subsection \<open>The tree as its call history\<close>

text \<open>Every non-const call that \<^verbatim>\<open>SelfplayGame\<close> makes on \<^verbatim>\<open>tree_\<close>.\<close>

datatype tree_call =
    SelectLeaf bool
  | IncorporateEndGameResult MctsNode real
  | IncorporateResults MctsNode "real list" real
  | AddVirtualLoss MctsNode
  | RevertVirtualLoss MctsNode
  | InjectNoise "real list" real
  | PickMove
  | ReshapeFinalVisits
  | PlayMove Coord
  | ClearSubtrees

type_synonym MctsTree = "tree_call list"
  \<comment> \<open>the calls made so far, oldest first; a fresh tree is \<open>[]\<close>\<close>

text \<open>What the tree, its nodes and their positions answer after a given call history.\<close>

record MctsTree_ops =
  tree_SelectLeaf :: "MctsTree \<Rightarrow> bool \<Rightarrow> MctsNode option"
  tree_root :: "MctsTree \<Rightarrow> MctsNode"
  tree_to_play :: "MctsTree \<Rightarrow> Color"
  tree_PickMove :: "MctsTree \<Rightarrow> Random \<Rightarrow> Coord \<times> Random"
  tree_CalculateSearchPi :: "MctsTree \<Rightarrow> real list"
  tree_at_move_limit :: "MctsTree \<Rightarrow> bool"
  tree_is_game_over :: "MctsTree \<Rightarrow> bool"
  tree_CalculateScore :: "MctsTree \<Rightarrow> real \<Rightarrow> real"
  node_N :: "MctsTree \<Rightarrow> MctsNode \<Rightarrow> int"
  node_Q :: "MctsTree \<Rightarrow> MctsNode \<Rightarrow> real"
  node_Q_perspective :: "MctsTree \<Rightarrow> MctsNode \<Rightarrow> real"
  node_game_over :: "MctsTree \<Rightarrow> MctsNode \<Rightarrow> bool"
  node_at_move_limit :: "MctsTree \<Rightarrow> MctsNode \<Rightarrow> bool"
  node_position :: "MctsTree \<Rightarrow> MctsNode \<Rightarrow> Position"
  node_parent :: "MctsTree \<Rightarrow> MctsNode \<Rightarrow> MctsNode option"
  node_move :: "MctsTree \<Rightarrow> MctsNode \<Rightarrow> Coord"
  node_canonical_symmetry :: "MctsTree \<Rightarrow> MctsNode \<Rightarrow> Symmetry"
  position_CalculateScore :: "Position \<Rightarrow> real \<Rightarrow> real"
  position_stone_hash :: "Position \<Rightarrow> 64 word"
  position_history_capacity :: nat

text \<open>The operations of \<^verbatim>\<open>Random\<close> (cc/random.h is not part of the sources): each
  takes the generator state and returns the sample with the next state. The record also
  holds the rounding that the platform applies when a \<^verbatim>\<open>double\<close> is stored in a
  \<^verbatim>\<open>float\<close>.\<close>

record Random_ops =
  rnd_uniform :: "Random \<Rightarrow> real \<times> Random"
  rnd_Dirichlet :: "Random \<Rightarrow> real \<Rightarrow> real list \<times> Random"
  rnd_UniformUint64 :: "Random \<Rightarrow> 64 word \<times> Random"
  rnd_seeded :: "64 word \<Rightarrow> nat \<Rightarrow> Random"
  MixBits :: "64 word \<Rightarrow> 64 word"
  kLargePrime :: "64 word"
  float_of_double :: "real \<Rightarrow> real"

subsection \<open>The game record\<close>

record GameOptions =
  resign_threshold :: real
  resign_enabled :: bool
  komi :: real

record Move =
  move_color :: Color
  move_c :: Coord
  move_position :: Position
  move_comment :: string
  move_Q :: real
  move_search_pi :: "real list"
  move_trainable :: bool

datatype GameOver =
    OverByResign Color
  | OverByMoveLimit real
  | OverByPasses real

record Game =
  game_options :: GameOptions
  black_name :: string
  white_name :: string
  moves :: "Move list"
  game_result :: "GameOver option"

text \<open>Modelled from the spec: the class \<^verbatim>\<open>Game\<close> (cc/game.h is not part of the
  sources). A game owns the move history; \<^verbatim>\<open>AddMove\<close> appends one move to it,
  \<^verbatim>\<open>MarkLastMoveAsTrainable\<close> flags the last move, and each
  \<^verbatim>\<open>SetGameOverBecause...\<close> ends the game with its reason.\<close>

definition new_Game :: "string \<Rightarrow> string \<Rightarrow> GameOptions \<Rightarrow> Game" where
  "new_Game b w opts =
     \<lparr>game_options = opts, black_name = b, white_name = w, moves = [], game_result = None\<rparr>"

definition game_over :: "Game \<Rightarrow> bool" where
  "game_over g = (game_result g \<noteq> None)"

definition AddMove ::
  "Color \<Rightarrow> Coord \<Rightarrow> Position \<Rightarrow> string \<Rightarrow> real \<Rightarrow> real list \<Rightarrow> Game \<Rightarrow> Game" where
  "AddMove color c position comment Q search_pi g =
     g\<lparr>moves := moves g @
         [\<lparr>move_color = color, move_c = c, move_position = position, move_comment = comment,
           move_Q = Q, move_search_pi = search_pi, move_trainable = False\<rparr>]\<rparr>"

definition MarkLastMoveAsTrainable :: "Game \<Rightarrow> Game" where
  "MarkLastMoveAsTrainable g =
     (if moves g = [] then g
      else g\<lparr>moves := butlast (moves g) @ [(last (moves g))\<lparr>move_trainable := True\<rparr>]\<rparr>)"

definition SetGameOverBecauseOfResign :: "Color \<Rightarrow> Game \<Rightarrow> Game" where
  "SetGameOverBecauseOfResign winner g = g\<lparr>game_result := Some (OverByResign winner)\<rparr>"

definition SetGameOverBecauseMoveLimitReached :: "real \<Rightarrow> Game \<Rightarrow> Game" where
  "SetGameOverBecauseMoveLimitReached score g = g\<lparr>game_result := Some (OverByMoveLimit score)\<rparr>"

definition SetGameOverBecauseOfPasses :: "real \<Rightarrow> Game \<Rightarrow> Game" where
  "SetGameOverBecauseOfPasses score g = g\<lparr>game_result := Some (OverByPasses score)\<rparr>"

subsection \<open>The state of one selfplay game\<close>

text \<open>\<^verbatim>\<open>SelfplayGame::Options\<close>.\<close>

record Options =
  num_virtual_losses :: int
  num_readouts :: int
  fastplay_readouts :: int
  fastplay_frequency :: real
  dirichlet_alpha :: real
  noise_mix :: real
  is_holdout :: bool
  target_pruning :: bool
  verbose :: bool
  allow_pass :: bool

text \<open>The data members of \<^verbatim>\<open>SelfplayGame\<close>, named without the trailing underscore
  of the source. \<^verbatim>\<open>use_ansi_colors_\<close> is only read by the log output, which is not
  modelled. Times are integers (a clock reading).\<close>

record SelfplayGame =
  options :: Options
  target_readouts :: int
  game :: Game
  tree :: MctsTree
  start_time :: int
  duration :: int
  models_used :: "string list"
  rnd :: Random
  inference_symmetry_mix :: "64 word"
  inject_noise_before_next_read :: bool
  fastplay :: bool

text \<open>The constructor: \<^verbatim>\<open>rnd0\<close> is the freshly seeded generator, \<^verbatim>\<open>now\<close> the clock
  reading that becomes \<^verbatim>\<open>start_time_\<close>; the two flags take their in-class initialisers.\<close>

definition new_SelfplayGame ::
  "Random_ops \<Rightarrow> Options \<Rightarrow> Game \<Rightarrow> MctsTree \<Rightarrow> Random \<Rightarrow> int \<Rightarrow> SelfplayGame" where
  "new_SelfplayGame R opts g t rnd0 now =
     (let (mix, rnd1) = rnd_UniformUint64 R rnd0
      in \<lparr>options = opts,
          target_readouts = num_readouts opts,
          game = g,
          tree = t,
          start_time = now,
          duration = 0,
          models_used = [],
          rnd = rnd1,
          inference_symmetry_mix = mix,
          inject_noise_before_next_read = False,
          fastplay = False\<rparr>)"

text \<open>A call on the tree is appended to its history.\<close>

definition call_tree :: "tree_call \<Rightarrow> SelfplayGame \<Rightarrow> SelfplayGame" where
  "call_tree c s = s\<lparr>tree := tree s @ [c]\<rparr>"

definition root_N :: "MctsTree_ops \<Rightarrow> SelfplayGame \<Rightarrow> int" where
  "root_N T s = node_N T (tree s) (tree_root T (tree s))"

section \<open>SelfplayGame\<close>

subsection \<open>InjectNoise, GetInferenceSymmetry, MaybeQueueInference\<close>

definition SelfplayGame_InjectNoise :: "Random_ops \<Rightarrow> SelfplayGame \<Rightarrow> SelfplayGame" where
  "SelfplayGame_InjectNoise R s =
     (let (noise, rnd1) = rnd_Dirichlet R (rnd s) (dirichlet_alpha (options s))
      in call_tree (InjectNoise noise (noise_mix (options s))) (s\<lparr>rnd := rnd1\<rparr>))"

text \<open>\<^verbatim>\<open>symmetry::kNumSymmetries\<close> is 8.\<close>

definition GetInferenceSymmetry ::
  "MctsTree_ops \<Rightarrow> Random_ops \<Rightarrow> SelfplayGame \<Rightarrow> MctsNode \<Rightarrow> Symmetry" where
  "GetInferenceSymmetry T R s node =
     (let bits = MixBits R (position_stone_hash T (node_position T (tree s) node) * kLargePrime R
                            + inference_symmetry_mix s)
      in unat bits mod 8)"

text \<open>The loop that fills \<^verbatim>\<open>inference.input.position_history\<close>: at most \<open>capacity\<close>
  positions, walking the parents until there is none.\<close>

fun position_history :: "MctsTree_ops \<Rightarrow> MctsTree \<Rightarrow> nat \<Rightarrow> MctsNode \<Rightarrow> Position list" where
  "position_history T h 0 node = []"
| "position_history T h (Suc n) node =
     node_position T h node #
       (case node_parent T h node of
          None \<Rightarrow> []
        | Some parent \<Rightarrow> position_history T h n parent)"

definition MaybeQueueInference ::
  "MctsTree_ops \<Rightarrow> Random_ops \<Rightarrow> MctsNode \<Rightarrow> InferenceCache \<Rightarrow> SelfplayGame \<Rightarrow> Inference list
     \<Rightarrow> bool \<times> SelfplayGame \<times> Inference list" where
  "MaybeQueueInference T R lf cache s inferences =
     (let inference_sym = GetInferenceSymmetry T R s lf;
          canonical = node_canonical_symmetry T (tree s) lf;
          key = (node_move T (tree s) lf, canonical, node_position T (tree s) lf)
      in case cache key canonical inference_sym of
           Some cached_output \<Rightarrow>
             (False,
              call_tree (IncorporateResults lf (policy cached_output) (out_value cached_output)) s,
              inferences)
         | None \<Rightarrow>
             (True,
              call_tree (AddVirtualLoss lf) s,
              inferences @
                [\<lparr>cache_key = key, leaf = lf, input_sym = inference_sym,
                  input_position_history =
                    position_history T (tree s) (position_history_capacity T) lf,
                  inf_output = empty_ModelOutput\<rparr>]))"

subsection \<open>SelectLeaves\<close>

text \<open>How one pass through the body of the \<^verbatim>\<open>do ... while\<close> loop ends: with a
  \<^verbatim>\<open>break\<close>, or at the loop condition (by \<^verbatim>\<open>continue\<close> or by reaching the end of
  the body).\<close>

datatype loop_exit = Break | ToCondition

definition SelectLeaves_body ::
  "MctsTree_ops \<Rightarrow> Random_ops \<Rightarrow> InferenceCache \<Rightarrow> SelfplayGame \<Rightarrow> Inference list \<Rightarrow> int
     \<Rightarrow> loop_exit \<times> int \<times> SelfplayGame \<times> Inference list" where
  "SelectLeaves_body T R cache s inferences num_queued =
     (let lf_opt = tree_SelectLeaf T (tree s) (allow_pass (options s));
          s1 = call_tree (SelectLeaf (allow_pass (options s))) s
      in case lf_opt of
           None \<Rightarrow> (Break, num_queued, s1, inferences)
         | Some lf \<Rightarrow>
             if node_game_over T (tree s1) lf \<or> node_at_move_limit T (tree s1) lf then
               (let v = (if position_CalculateScore T (node_position T (tree s1) lf)
                              (komi (game_options (game s1))) > 0 then 1 else - 1)
                in (ToCondition, num_queued, call_tree (IncorporateEndGameResult lf v) s1,
                    inferences))
             else
               (let (queued, s2, inferences2) = MaybeQueueInference T R lf cache s1 inferences;
                    num_queued2 = (if queued then num_queued + 1 else num_queued)
                in if lf = tree_root T (tree s2) then
                     (Break, num_queued2,
                      (if \<not> fastplay s2 then s2\<lparr>inject_noise_before_next_read := True\<rparr>
                       else s2),
                      inferences2)
                   else (ToCondition, num_queued2, s2, inferences2)))"

definition SelectLeaves_condition :: "MctsTree_ops \<Rightarrow> SelfplayGame \<Rightarrow> int \<Rightarrow> bool" where
  "SelectLeaves_condition T s num_queued =
     (num_queued < num_virtual_losses (options s) \<and> root_N T s < target_readouts s)"

text \<open>The loop. Nothing in this file bounds the number of passes (a tree may keep
  returning terminal leaves without raising the visit count of the root), so the loop takes
  fuel: \<open>None\<close> means that the fuel ran out before the loop ended.\<close>

fun SelectLeaves_loop ::
  "nat \<Rightarrow> MctsTree_ops \<Rightarrow> Random_ops \<Rightarrow> InferenceCache \<Rightarrow> SelfplayGame \<Rightarrow> Inference list \<Rightarrow> int
     \<Rightarrow> (int \<times> SelfplayGame \<times> Inference list) option" where
  "SelectLeaves_loop 0 T R cache s inferences num_queued = None"
| "SelectLeaves_loop (Suc fuel) T R cache s inferences num_queued =
     (case SelectLeaves_body T R cache s inferences num_queued of
        (Break, num_queued', s', inferences') \<Rightarrow> Some (num_queued', s', inferences')
      | (ToCondition, num_queued', s', inferences') \<Rightarrow>
          if SelectLeaves_condition T s' num_queued'
          then SelectLeaves_loop fuel T R cache s' inferences' num_queued'
          else Some (num_queued', s', inferences'))"

text \<open>The step before the loop: noise that is pending is injected, and the flag is
  cleared.\<close>

definition inject_pending_noise :: "Random_ops \<Rightarrow> SelfplayGame \<Rightarrow> SelfplayGame" where
  "inject_pending_noise R s =
     (if inject_noise_before_next_read s
      then SelfplayGame_InjectNoise R (s\<lparr>inject_noise_before_next_read := False\<rparr>)
      else s)"

definition SelectLeaves ::
  "nat \<Rightarrow> MctsTree_ops \<Rightarrow> Random_ops \<Rightarrow> InferenceCache \<Rightarrow> SelfplayGame \<Rightarrow> Inference list
     \<Rightarrow> (int \<times> SelfplayGame \<times> Inference list) option" where
  "SelectLeaves fuel T R cache s inferences =
     SelectLeaves_loop fuel T R cache (inject_pending_noise R s) inferences 0"



subsection \<open>ProcessInferences\<close>

definition record_model_name :: "string \<Rightarrow> SelfplayGame \<Rightarrow> SelfplayGame" where
  "record_model_name model_name s =
     (if model_name \<noteq> [] then
        (if models_used s = [] \<or> model_name \<noteq> last (models_used s)
         then s\<lparr>models_used := models_used s @ [model_name]\<rparr>
         else s)
      else s)"

fun incorporate_all :: "Inference list \<Rightarrow> SelfplayGame \<Rightarrow> SelfplayGame" where
  "incorporate_all [] s = s"
| "incorporate_all (inference # rest) s =
     incorporate_all rest
       (call_tree (RevertVirtualLoss (leaf inference))
          (call_tree (IncorporateResults (leaf inference) (policy (inf_output inference))
                        (out_value (inf_output inference))) s))"

definition ProcessInferences :: "string \<Rightarrow> Inference list \<Rightarrow> SelfplayGame \<Rightarrow> SelfplayGame" where
  "ProcessInferences model_name inferences s =
     incorporate_all inferences (record_model_name model_name s)"

subsection \<open>ShouldFastplay, ShouldResign, MaybePlayMove\<close>

text \<open>\<^verbatim>\<open>&&\<close> does not evaluate \<^verbatim>\<open>rnd_()\<close> when the frequency is not positive.\<close>

definition ShouldFastplay :: "Random_ops \<Rightarrow> SelfplayGame \<Rightarrow> bool \<times> SelfplayGame" where
  "ShouldFastplay R s =
     (if fastplay_frequency (options s) > 0 then
        (let (u, rnd1) = rnd_uniform R (rnd s)
         in (u < fastplay_frequency (options s), s\<lparr>rnd := rnd1\<rparr>))
      else (False, s))"

definition ShouldResign :: "MctsTree_ops \<Rightarrow> SelfplayGame \<Rightarrow> bool" where
  "ShouldResign T s =
     (resign_enabled (game_options (game s)) \<and>
      node_Q_perspective T (tree s) (tree_root T (tree s))
        < resign_threshold (game_options (game s)))"

text \<open>The \<^verbatim>\<open>else\<close> branch of the resignation test, statement by statement:
  \<^verbatim>\<open>PickMove\<close>; \<^verbatim>\<open>AddMove\<close> with the model string and the search policy;
  \<^verbatim>\<open>ReshapeFinalVisits\<close>; \<^verbatim>\<open>PlayMove\<close>; \<^verbatim>\<open>MarkLastMoveAsTrainable\<close>; the test
  for the end of the game.\<close>

definition pick_move :: "MctsTree_ops \<Rightarrow> SelfplayGame \<Rightarrow> Coord \<times> SelfplayGame" where
  "pick_move T s =
     (let (c, rnd1) = tree_PickMove T (tree s) (rnd s)
      in (c, call_tree PickMove (s\<lparr>rnd := rnd1\<rparr>)))"

definition add_move :: "MctsTree_ops \<Rightarrow> Coord \<Rightarrow> SelfplayGame \<Rightarrow> SelfplayGame" where
  "add_move T c s =
     (let model_str = (if models_used s \<noteq> []
                       then ''model: '' @ last (models_used s) @ [CHR 0x0A] else []);
          search_pi = tree_CalculateSearchPi T (tree s);
          rt = tree_root T (tree s)
      in s\<lparr>game := AddMove (tree_to_play T (tree s)) c (node_position T (tree s) rt)
                       model_str (node_Q T (tree s) rt) search_pi (game s)\<rparr>)"

definition reshape_final_visits :: "SelfplayGame \<Rightarrow> SelfplayGame" where
  "reshape_final_visits s =
     (if target_pruning (options s) \<and> \<not> fastplay s then call_tree ReshapeFinalVisits s else s)"

definition mark_trainable :: "Coord \<Rightarrow> SelfplayGame \<Rightarrow> SelfplayGame" where
  "mark_trainable c s =
     (if c \<noteq> kResign \<and> \<not> fastplay s then s\<lparr>game := MarkLastMoveAsTrainable (game s)\<rparr> else s)"

definition check_game_over :: "MctsTree_ops \<Rightarrow> SelfplayGame \<Rightarrow> SelfplayGame" where
  "check_game_over T s =
     (if tree_at_move_limit T (tree s) then
        s\<lparr>game := SetGameOverBecauseMoveLimitReached
                     (tree_CalculateScore T (tree s) (komi (game_options (game s)))) (game s)\<rparr>
      else if tree_is_game_over T (tree s) then
        s\<lparr>game := SetGameOverBecauseOfPasses
                     (tree_CalculateScore T (tree s) (komi (game_options (game s)))) (game s)\<rparr>
      else s)"

definition play_picked_move :: "MctsTree_ops \<Rightarrow> SelfplayGame \<Rightarrow> SelfplayGame" where
  "play_picked_move T s =
     (let (c, s1) = pick_move T s
      in check_game_over T
           (mark_trainable c
              (call_tree (PlayMove c)
                 (reshape_final_visits (add_move T c s1)))))"

text \<open>The block after the move: set up the search of the next move, or stop the clock.\<close>

definition prepare_next_move ::
  "MctsTree_ops \<Rightarrow> Random_ops \<Rightarrow> int \<Rightarrow> SelfplayGame \<Rightarrow> SelfplayGame" where
  "prepare_next_move T R now s =
     (if \<not> game_over (game s) then
        (let (fast, s1) = ShouldFastplay R s;
             s2 = s1\<lparr>fastplay := fast, inject_noise_before_next_read := \<not> fast\<rparr>;
             n = (if fastplay s2 then fastplay_readouts (options s2)
                  else num_readouts (options s2));
             s3 = s2\<lparr>target_readouts := root_N T s2 + n\<rparr>
         in if \<not> fastplay s3 then
              (if fastplay_frequency (options s3) > 0 then call_tree ClearSubtrees s3 else s3)
            else s3)
      else s\<lparr>duration := now - start_time s\<rparr>)"

text \<open>\<^verbatim>\<open>now\<close> is what \<^verbatim>\<open>absl::Now()\<close> returns during the call.\<close>

definition MaybePlayMove ::
  "MctsTree_ops \<Rightarrow> Random_ops \<Rightarrow> int \<Rightarrow> SelfplayGame \<Rightarrow> bool \<times> SelfplayGame" where
  "MaybePlayMove T R now s =
     (if root_N T s < target_readouts s then (False, s)
      else
        (let s1 = (if ShouldResign T s then
                     s\<lparr>game := SetGameOverBecauseOfResign (OtherColor (tree_to_play T (tree s)))
                                   (game s)\<rparr>
                   else play_picked_move T s)
         in (True, prepare_next_move T R now s1)))"

section \<open>One game driven through the cycle of its thread\<close>

text \<open>What one pass of \<^verbatim>\<open>SelfplayThread::Run\<close> does to a single game:
  \<^verbatim>\<open>TreeSearcher::Search\<close> calls \<^verbatim>\<open>SelectLeaves\<close>, \<^verbatim>\<open>RunInferences\<close> lets the
  model fill the output of every queued inference, \<^verbatim>\<open>ProcessInferences\<close> is called for
  the span of the game if that span is not empty, and \<^verbatim>\<open>PlayMoves\<close> calls
  \<^verbatim>\<open>MaybePlayMove\<close>. The inputs of a pass that the game does not control are collected
  in a record.\<close>

record cycle_input =
  ci_fuel :: nat
  ci_cache :: InferenceCache
  ci_model_name :: string
  ci_model :: "Inference \<Rightarrow> ModelOutput"
  ci_now :: int

definition run_model :: "(Inference \<Rightarrow> ModelOutput) \<Rightarrow> Inference list \<Rightarrow> Inference list" where
  "run_model m inferences = map (\<lambda>i. i\<lparr>inf_output := m i\<rparr>) inferences"

definition game_cycle ::
  "MctsTree_ops \<Rightarrow> Random_ops \<Rightarrow> cycle_input \<Rightarrow> SelfplayGame \<Rightarrow> SelfplayGame option" where
  "game_cycle T R ci s =
     (case SelectLeaves (ci_fuel ci) T R (ci_cache ci) s [] of
        None \<Rightarrow> None
      | Some (n, s1, inferences) \<Rightarrow>
          (let s2 = (if n > 0
                     then ProcessInferences (ci_model_name ci) (run_model (ci_model ci) inferences) s1
                     else s1)
           in Some (snd (MaybePlayMove T R (ci_now ci) s2))))"

text \<open>A finished game is handed to the output queue and never touched again.\<close>

fun play_cycles ::
  "MctsTree_ops \<Rightarrow> Random_ops \<Rightarrow> cycle_input list \<Rightarrow> SelfplayGame \<Rightarrow> SelfplayGame option" where
  "play_cycles T R [] s = Some s"
| "play_cycles T R (ci # rest) s =
     (if game_over (game s) then Some s
      else case game_cycle T R ci s of
             None \<Rightarrow> None
           | Some s' \<Rightarrow> play_cycles T R rest s')"

section \<open>Selfplayer\<close>

text \<open>The command line flags that the modelled code reads, with the names of the source.\<close>

record Flags =
  FLAGS_model :: string
  FLAGS_cache_size_mb :: int
  FLAGS_cache_shards :: int
  FLAGS_num_readouts :: int
  FLAGS_fastplay_frequency :: real
  FLAGS_fastplay_readouts :: int
  FLAGS_virtual_losses :: int
  FLAGS_dirichlet_alpha :: real
  FLAGS_noise_mix :: real
  FLAGS_target_pruning :: bool
  FLAGS_allow_pass :: bool
  FLAGS_selfplay_threads :: int
  FLAGS_concurrent_games_per_thread :: int
  FLAGS_seed :: "64 word"
  FLAGS_resign_threshold :: real
  FLAGS_disable_resign_pct :: real
  FLAGS_num_games :: int
  FLAGS_run_forever :: bool
  FLAGS_holdout_pct :: real
  FLAGS_verbose :: bool

text \<open>The default of every flag, as its \<^verbatim>\<open>DEFINE_...\<close> gives it.\<close>

definition default_flags :: Flags where
  "default_flags =
     \<lparr>FLAGS_model = [],
      FLAGS_cache_size_mb = 0,
      FLAGS_cache_shards = 8,
      FLAGS_num_readouts = 104,
      FLAGS_fastplay_frequency = 0,
      FLAGS_fastplay_readouts = 20,
      FLAGS_virtual_losses = 8,
      FLAGS_dirichlet_alpha = 3 / 100,
      FLAGS_noise_mix = 1 / 4,
      FLAGS_target_pruning = False,
      FLAGS_allow_pass = True,
      FLAGS_selfplay_threads = 3,
      FLAGS_concurrent_games_per_thread = 1,
      FLAGS_seed = 0,
      FLAGS_resign_threshold = - (999 / 1000),
      FLAGS_disable_resign_pct = 1 / 10,
      FLAGS_num_games = 0,
      FLAGS_run_forever = False,
      FLAGS_holdout_pct = 3 / 100,
      FLAGS_verbose = True\<rparr>"

datatype error = CheckFailed | DivisionByZero | SignedOverflow | NullDereference | OutOfFuel

text \<open>The values of a 32-bit \<^verbatim>\<open>int\<close> (the flags are \<^verbatim>\<open>DEFINE_int32\<close>).\<close>

definition int32_range :: "int \<Rightarrow> bool" where
  "int32_range x = (- (2 ^ 31) \<le> x \<and> x < 2 ^ 31)"

text \<open>The members of \<^verbatim>\<open>Selfplayer\<close> that the modelled code uses, together with the
  flags (which \<^verbatim>\<open>ParseFlags\<close> writes) and the number of generator streams handed out
  so far (\<^verbatim>\<open>Random::kUniqueStream\<close>). \<^verbatim>\<open>win_stats_\<close>, the executor and the pool
  of models are not modelled.\<close>

record Selfplayer =
  flags :: Flags
  sp_game_options :: GameOptions
  num_games_remaining :: int
  sp_rnd :: Random
  sp_model_name :: string
  output_queue :: "SelfplayGame list"
  streams :: nat

definition ParseFlags :: "Selfplayer \<Rightarrow> error + Selfplayer" where
  "ParseFlags sp =
     (let f = flags sp
      in if FLAGS_run_forever f \<and> FLAGS_num_games f \<noteq> 0 then Inl CheckFailed
         else if \<not> FLAGS_run_forever f \<and> \<not> FLAGS_num_games f > 0 then Inl CheckFailed
         else if FLAGS_model f = [] then Inl CheckFailed
         else if \<not> FLAGS_run_forever f \<and>
                 \<not> (int32_range (FLAGS_num_games f + FLAGS_selfplay_threads f) \<and>
                    int32_range (FLAGS_num_games f + FLAGS_selfplay_threads f - 1))
           then Inl SignedOverflow
         else if \<not> FLAGS_run_forever f \<and> FLAGS_selfplay_threads f = 0 then Inl DivisionByZero
         else
           (let f1 = (if \<not> FLAGS_run_forever f then
                        (let max_concurrent_games_per_thread =
                               (FLAGS_num_games f + FLAGS_selfplay_threads f - 1)
                                 sdiv FLAGS_selfplay_threads f
                         in f\<lparr>FLAGS_concurrent_games_per_thread :=
                                 min max_concurrent_games_per_thread
                                     (FLAGS_concurrent_games_per_thread f)\<rparr>)
                      else f)
            in Inr (sp\<lparr>flags := f1,
                       sp_game_options :=
                         (sp_game_options sp)\<lparr>resign_threshold := - \<bar>FLAGS_resign_threshold f1\<bar>\<rparr>,
                       num_games_remaining := FLAGS_num_games f1\<rparr>)))"

text \<open>The constructor; \<open>default_game_options\<close> is the default-constructed
  \<^verbatim>\<open>Game::Options\<close>.\<close>

definition new_Selfplayer :: "Random_ops \<Rightarrow> GameOptions \<Rightarrow> Flags \<Rightarrow> error + Selfplayer" where
  "new_Selfplayer R default_game_options f =
     ParseFlags
       \<lparr>flags = f, sp_game_options = default_game_options, num_games_remaining = 0,
        sp_rnd = rnd_seeded R (FLAGS_seed f) 0, sp_model_name = [], output_queue = [],
        streams = 1\<rparr>"

text \<open>The inference cache that \<^verbatim>\<open>Selfplayer::Run\<close> creates: a
  \<^verbatim>\<open>ThreadSafeInferenceCache(capacity, num_shards)\<close> or a \<^verbatim>\<open>NullInferenceCache\<close>.
  \<^verbatim>\<open>BasicInferenceCache::CalculateCapacity\<close> is a parameter.\<close>

datatype created_cache = ThreadSafeInferenceCache nat int | NullInferenceCache

definition Run_create_cache :: "(int \<Rightarrow> nat) \<Rightarrow> Selfplayer \<Rightarrow> created_cache" where
  "Run_create_cache CalculateCapacity sp =
     (if FLAGS_cache_size_mb (flags sp) > 0 then
        (let capacity = CalculateCapacity (FLAGS_cache_size_mb (flags sp))
         in ThreadSafeInferenceCache capacity (FLAGS_cache_shards (flags sp)))
      else NullInferenceCache)"

fun num_shards :: "created_cache \<Rightarrow> int" where
  "num_shards (ThreadSafeInferenceCache capacity shards) = shards"
| "num_shards NullInferenceCache = 0"

text \<open>The number of games played in parallel: every selfplay thread holds
  \<^verbatim>\<open>concurrent_games_per_thread\<close> slots.\<close>

definition parallel_games :: "Flags \<Rightarrow> int" where
  "parallel_games f = FLAGS_concurrent_games_per_thread f * FLAGS_selfplay_threads f"



section \<open>SelfplayThread\<close>











section \<open>Reading a call history\<close>

fun is_SelectLeaf :: "tree_call \<Rightarrow> bool" where
  "is_SelectLeaf (SelectLeaf ap) = True"
| "is_SelectLeaf c = False"

fun is_InjectNoise :: "tree_call \<Rightarrow> bool" where
  "is_InjectNoise (InjectNoise noise mix) = True"
| "is_InjectNoise c = False"

fun is_PlayMove :: "tree_call \<Rightarrow> bool" where
  "is_PlayMove (PlayMove c) = True"
| "is_PlayMove c = False"

fun is_visit :: "tree_call \<Rightarrow> bool" where
  "is_visit (IncorporateResults n p v) = True"
| "is_visit (IncorporateEndGameResult n v) = True"
| "is_visit c = False"

fun is_virtual_loss :: "tree_call \<Rightarrow> bool" where
  "is_virtual_loss (AddVirtualLoss n) = True"
| "is_virtual_loss (RevertVirtualLoss n) = True"
| "is_virtual_loss c = False"

text \<open>The calls that add or revert a virtual loss, in the order they were made.\<close>

definition virtual_loss_calls :: "tree_call list \<Rightarrow> tree_call list" where
  "virtual_loss_calls h = filter is_virtual_loss h"

text \<open>The calls made since the last \<^verbatim>\<open>PlayMove\<close>: the search of the current move.\<close>

definition current_move :: "tree_call list \<Rightarrow> tree_call list" where
  "current_move h = rev (takeWhile (\<lambda>c. \<not> is_PlayMove c) (rev h))"

definition injections :: "tree_call list \<Rightarrow> nat" where
  "injections h = length (filter is_InjectNoise h)"

text \<open>A leaf has been expanded in a history: \<^verbatim>\<open>SelectLeaf\<close> returned it while it was the
  root of the tree, and \<^verbatim>\<open>IncorporateResults\<close> has been called on it since.\<close>

definition root_expanded :: "MctsTree_ops \<Rightarrow> tree_call list \<Rightarrow> bool" where
  "root_expanded T h =
     (\<exists>h0 ap e rest r p v.
        h = h0 @ SelectLeaf ap # e # rest \<and>
        tree_SelectLeaf T h0 ap = Some r \<and>
        tree_root T (h0 @ [SelectLeaf ap, e]) = r \<and>
        IncorporateResults r p v \<in> set (e # rest))"

text \<open>\<^verbatim>\<open>SelectLeaf\<close> has returned the root during the calls \<open>mid\<close>, which follow the
  calls \<open>pre\<close>, and the leaf went to \<^verbatim>\<open>MaybeQueueInference\<close>, which adds a virtual
  loss to it or, on a cache hit, incorporates the cached result.\<close>

definition root_selected :: "MctsTree_ops \<Rightarrow> tree_call list \<Rightarrow> tree_call list \<Rightarrow> bool" where
  "root_selected T pre mid =
     (\<exists>a ap e b r.
        mid = a @ SelectLeaf ap # e # b \<and>
        tree_SelectLeaf T (pre @ a) ap = Some r \<and>
        tree_root T (pre @ a @ [SelectLeaf ap, e]) = r \<and>
        (e = AddVirtualLoss r \<or> (\<exists>p v. e = IncorporateResults r p v)))"

text \<open>The call incorporates an inference result into the given node.\<close>

fun incorporates_into :: "MctsNode \<Rightarrow> tree_call \<Rightarrow> bool" where
  "incorporates_into n (IncorporateResults m p v) = (m = n)"
| "incorporates_into n c = False"

text \<open>An assumption on a tree: once noise has been injected during the search of the
  current move, \<^verbatim>\<open>SelectLeaf\<close> does not return the root (noise is injected into an
  expanded root, and an expanded root is not a leaf).\<close>

definition no_root_leaf_after_noise :: "MctsTree_ops \<Rightarrow> bool" where
  "no_root_leaf_after_noise T =
     (\<forall>h ap lf e.
        tree_SelectLeaf T h ap = Some lf \<and> 0 < injections (current_move h) \<and>
        (e = AddVirtualLoss lf \<or> (\<exists>p v. e = IncorporateResults lf p v))
        \<longrightarrow> tree_root T (h @ [SelectLeaf ap, e]) \<noteq> lf)"

text \<open>An assumption on a generator: \<^verbatim>\<open>rnd_()\<close> returns a number below 1.\<close>

definition uniform_below_one :: "Random_ops \<Rightarrow> bool" where
  "uniform_below_one R = (\<forall>r. fst (rnd_uniform R r) < 1)"

section \<open>A small tree and a small generator for the examples\<close>

text \<open>The root is always called node 0. A fresh tree hands out its root; afterwards the
  root is expanded and every \<^verbatim>\<open>SelectLeaf\<close> returns a new node, named by the length of
  the history. The visit count of the root is the number of results incorporated, and the
  move limit is reached after two moves.\<close>

definition demo_tree :: MctsTree_ops where
  "demo_tree =
     \<lparr>tree_SelectLeaf = (\<lambda>h ap. Some (length h)),
      tree_root = (\<lambda>h. 0),
      tree_to_play = (\<lambda>h. if even (length (filter is_PlayMove h)) then kBlack else kWhite),
      tree_PickMove = (\<lambda>h r. (kPoint (length (filter is_PlayMove h)), r + 1)),
      tree_CalculateSearchPi = (\<lambda>h. []),
      tree_at_move_limit = (\<lambda>h. 2 \<le> length (filter is_PlayMove h)),
      tree_is_game_over = (\<lambda>h. False),
      tree_CalculateScore = (\<lambda>h k. 1),
      node_N = (\<lambda>h n. int (length (filter is_visit h))),
      node_Q = (\<lambda>h n. 0),
      node_Q_perspective = (\<lambda>h n. 0),
      node_game_over = (\<lambda>h n. False),
      node_at_move_limit = (\<lambda>h n. False),
      node_position = (\<lambda>h n. n),
      node_parent = (\<lambda>h n. if n = 0 then None else Some 0),
      node_move = (\<lambda>h n. kPoint n),
      node_canonical_symmetry = (\<lambda>h n. 0),
      position_CalculateScore = (\<lambda>p k. 1),
      position_stone_hash = (\<lambda>p. of_nat p),
      position_history_capacity = 2\<rparr>"

text \<open>The same tree with a root that is a finished game.\<close>

definition demo_tree_terminal_root :: MctsTree_ops where
  "demo_tree_terminal_root = demo_tree\<lparr>node_game_over := (\<lambda>h n. n = 0)\<rparr>"

text \<open>The same tree with a root that is a leaf again after every move:
  \<^verbatim>\<open>SelectLeaf\<close> returns the root until a result has been incorporated into it during
  the search of the current move.\<close>

definition demo_tree_fresh_root :: MctsTree_ops where
  "demo_tree_fresh_root =
     demo_tree\<lparr>tree_SelectLeaf :=
       (\<lambda>h ap. if list_ex (incorporates_into 0) (current_move h) then Some (length h) else Some 0)\<rparr>"

definition demo_random :: Random_ops where
  "demo_random =
     \<lparr>rnd_uniform = (\<lambda>r. (1 / 2, r + 1)),
      rnd_Dirichlet = (\<lambda>r alpha. ([], r + 1)),
      rnd_UniformUint64 = (\<lambda>r. (0, r + 1)),
      rnd_seeded = (\<lambda>seed k. k),
      MixBits = (\<lambda>w. w),
      kLargePrime = 3,
      float_of_double = (\<lambda>x. x)\<rparr>"

definition demo_options :: Options where
  "demo_options =
     \<lparr>num_virtual_losses = 2, num_readouts = 3, fastplay_readouts = 1, fastplay_frequency = 0,
      dirichlet_alpha = 3 / 100, noise_mix = 1 / 4, is_holdout = False, target_pruning = False,
      verbose = False, allow_pass = True\<rparr>"

definition demo_game_options :: GameOptions where
  "demo_game_options = \<lparr>resign_threshold = - (9 / 10), resign_enabled = True, komi = 15 / 2\<rparr>"

text \<open>A new game, as \<^verbatim>\<open>StartNewGame\<close> builds it.\<close>

definition demo_game :: SelfplayGame where
  "demo_game =
     new_SelfplayGame demo_random demo_options (new_Game ''m'' ''m'' demo_game_options) [] 0 0"

definition demo_cycle :: cycle_input where
  "demo_cycle =
     \<lparr>ci_fuel = 5, ci_cache = null_cache, ci_model_name = ''m'',
      ci_model = (\<lambda>i. \<lparr>policy = [], out_value = 0\<rparr>), ci_now = 7\<rparr>"

text \<open>The same tree with a root whose value, from the side to move, is a certain loss.\<close>

definition demo_tree_losing :: MctsTree_ops where
  "demo_tree_losing = demo_tree\<lparr>node_Q_perspective := (\<lambda>h n. - 1)\<rparr>"

text \<open>A game whose read budget is already met.\<close>

definition demo_game_ready :: SelfplayGame where
  "demo_game_ready = demo_game\<lparr>target_readouts := 0\<rparr>"

text \<open>A new game when \<^verbatim>\<open>num_readouts\<close> is 0: its read budget is met from the start.\<close>

definition demo_game_zero_readouts :: SelfplayGame where
  "demo_game_zero_readouts =
     new_SelfplayGame demo_random (demo_options\<lparr>num_readouts := 0\<rparr>)
       (new_Game ''m'' ''m'' demo_game_options) [] 0 0"

section \<open>What a search leaves untouched\<close>

text \<open>The members that neither \<^verbatim>\<open>SelectLeaves\<close> nor \<^verbatim>\<open>ProcessInferences\<close>
  writes, apart from the list of models.\<close>

definition search_frame :: "SelfplayGame \<Rightarrow> SelfplayGame \<Rightarrow> bool" where
  "search_frame s s' =
     (options s' = options s \<and> fastplay s' = fastplay s \<and>
      target_readouts s' = target_readouts s \<and> game s' = game s \<and>
      models_used s' = models_used s)"

text \<open>A stretch of calls without \<^verbatim>\<open>InjectNoise\<close> and without \<^verbatim>\<open>PlayMove\<close>.\<close>

definition quiet :: "tree_call list \<Rightarrow> bool" where
  "quiet ev = (\<forall>c \<in> set ev. \<not> is_InjectNoise c \<and> \<not> is_PlayMove c)"

text \<open>What holds of the fast-play flag of a game between two cycles.\<close>

definition fastplay_inv :: "Random_ops \<Rightarrow> SelfplayGame \<Rightarrow> bool" where
  "fastplay_inv R s =
     ((moves (game s) = [] \<longrightarrow> \<not> fastplay s) \<and>
      (fastplay_frequency (options s) = 0 \<longrightarrow> \<not> fastplay s) \<and>
      (fastplay_frequency (options s) = 1 \<and> uniform_below_one R \<and>
       moves (game s) \<noteq> [] \<and> \<not> game_over (game s) \<longrightarrow> fastplay s))"

section \<open>Noise and the moves of a game\<close>

text \<open>Every stretch of a history without a \<^verbatim>\<open>PlayMove\<close> holds at most one
  \<^verbatim>\<open>InjectNoise\<close>: noise is injected at most once during the search of a move.\<close>

definition noise_once_per_move :: "tree_call list \<Rightarrow> bool" where
  "noise_once_per_move h =
     (\<forall>h1 seg h2. h = h1 @ seg @ h2 \<and> (\<forall>c \<in> set seg. \<not> is_PlayMove c) \<longrightarrow> injections seg \<le> 1)"

text \<open>The root has been selected and an inference for it is queued, not yet processed.\<close>

definition root_pending :: "MctsTree_ops \<Rightarrow> tree_call list \<Rightarrow> Inference list \<Rightarrow> bool" where
  "root_pending T h infs =
     (\<exists>h0 ap rest r.
        h = h0 @ SelectLeaf ap # AddVirtualLoss r # rest \<and>
        tree_SelectLeaf T h0 ap = Some r \<and>
        tree_root T (h0 @ [SelectLeaf ap, AddVirtualLoss r]) = r \<and>
        r \<in> leaf ` set infs)"

text \<open>Every \<^verbatim>\<open>InjectNoise\<close> before the first move comes after the root was expanded.\<close>

definition noise_after_expansion :: "MctsTree_ops \<Rightarrow> tree_call list \<Rightarrow> bool" where
  "noise_after_expansion T h =
     (\<forall>h1 noise mix h2.
        h = h1 @ InjectNoise noise mix # h2 \<and> (\<forall>c \<in> set h1. \<not> is_PlayMove c)
        \<longrightarrow> root_expanded T h1)"

text \<open>What holds of the noise flag and of the history of a game between two cycles.\<close>

definition noise_inv :: "MctsTree_ops \<Rightarrow> SelfplayGame \<Rightarrow> bool" where
  "noise_inv T s =
     ((inject_noise_before_next_read s \<longrightarrow> \<not> fastplay s) \<and>
      noise_after_expansion T (tree s) \<and>
      (inject_noise_before_next_read s \<and> (\<forall>c \<in> set (tree s). \<not> is_PlayMove c)
         \<longrightarrow> root_expanded T (tree s)) \<and>
      (no_root_leaf_after_noise T \<longrightarrow>
         noise_once_per_move (tree s) \<and>
         (inject_noise_before_next_read s \<longrightarrow> injections (current_move (tree s)) = 0)))"

text \<open>Between two \<^verbatim>\<open>InjectNoise\<close> calls of the same move the root has been selected
  as a leaf.\<close>

definition root_selected_between_noise :: "MctsTree_ops \<Rightarrow> tree_call list \<Rightarrow> bool" where
  "root_selected_between_noise T h =
     (\<forall>h1 noise1 mix1 mid noise2 mix2 h2.
        h = h1 @ InjectNoise noise1 mix1 # mid @ InjectNoise noise2 mix2 # h2 \<and>
        (\<forall>c \<in> set mid. \<not> is_PlayMove c)
        \<longrightarrow> root_selected T (h1 @ [InjectNoise noise1 mix1]) mid)"

text \<open>Since every \<^verbatim>\<open>InjectNoise\<close> call of the current move the root has been selected as
  a leaf.\<close>

definition root_selected_since_noise :: "MctsTree_ops \<Rightarrow> tree_call list \<Rightarrow> bool" where
  "root_selected_since_noise T h =
     (\<forall>h1 noise1 mix1 mid.
        h = h1 @ InjectNoise noise1 mix1 # mid \<and> (\<forall>c \<in> set mid. \<not> is_PlayMove c)
        \<longrightarrow> root_selected T (h1 @ [InjectNoise noise1 mix1]) mid)"

text \<open>What holds of the noise flag and of the injections of one move between two
  cycles: the flag is set again during a move only by a selection of the root.\<close>

definition rearm_inv :: "MctsTree_ops \<Rightarrow> SelfplayGame \<Rightarrow> bool" where
  "rearm_inv T s =
     (root_selected_between_noise T (tree s) \<and>
      (inject_noise_before_next_read s \<longrightarrow> root_selected_since_noise T (tree s)))"

section \<open>Frame lemmas\<close>

lemmas demo_defs =
  demo_game_def demo_game_ready_def new_SelfplayGame_def demo_random_def demo_options_def
  new_Game_def demo_game_options_def demo_tree_def demo_tree_losing_def
  demo_tree_terminal_root_def demo_cycle_def demo_game_zero_readouts_def


lemma call_tree_frame:
  "options (call_tree c s) = options s \<and> fastplay (call_tree c s) = fastplay s \<and>
   target_readouts (call_tree c s) = target_readouts s \<and>
   models_used (call_tree c s) = models_used s \<and>
   inject_noise_before_next_read (call_tree c s) = inject_noise_before_next_read s \<and>
   game (call_tree c s) = game s \<and> rnd (call_tree c s) = rnd s \<and>
   tree (call_tree c s) = tree s @ [c]"
  by (simp add: call_tree_def)

lemma models_used_incorporate_all:
  "models_used (incorporate_all infs s) = models_used s"
  by (induction infs arbitrary: s) (simp_all add: call_tree_def)

lemma ShouldFastplay_frame:
  "ShouldFastplay R s = (fast, s') \<Longrightarrow>
     tree s' = tree s \<and> options s' = options s \<and> game s' = game s \<and>
     target_readouts s' = target_readouts s \<and> fastplay s' = fastplay s \<and>
     inject_noise_before_next_read s' = inject_noise_before_next_read s \<and>
     models_used s' = models_used s"
  by (auto simp: ShouldFastplay_def split: if_splits prod.splits)

lemma pick_move_frame:
  "pick_move T s = (c, s') \<Longrightarrow>
     options s' = options s \<and> fastplay s' = fastplay s \<and> game s' = game s \<and>
     target_readouts s' = target_readouts s \<and> models_used s' = models_used s \<and>
     inject_noise_before_next_read s' = inject_noise_before_next_read s \<and>
     tree s' = tree s @ [PickMove]"
  by (auto simp: pick_move_def call_tree_def split: prod.splits)

lemma add_move_frame:
  "options (add_move T c s) = options s \<and> fastplay (add_move T c s) = fastplay s \<and>
   target_readouts (add_move T c s) = target_readouts s \<and>
   models_used (add_move T c s) = models_used s \<and>
   inject_noise_before_next_read (add_move T c s) = inject_noise_before_next_read s \<and>
   tree (add_move T c s) = tree s \<and> rnd (add_move T c s) = rnd s"
  by (simp add: add_move_def Let_def)

lemma reshape_final_visits_frame:
  "options (reshape_final_visits s) = options s \<and> fastplay (reshape_final_visits s) = fastplay s \<and>
   target_readouts (reshape_final_visits s) = target_readouts s \<and>
   models_used (reshape_final_visits s) = models_used s \<and>
   inject_noise_before_next_read (reshape_final_visits s) = inject_noise_before_next_read s \<and>
   game (reshape_final_visits s) = game s \<and> rnd (reshape_final_visits s) = rnd s"
  by (simp add: reshape_final_visits_def call_tree_def)

lemma mark_trainable_frame:
  "options (mark_trainable c s) = options s \<and> fastplay (mark_trainable c s) = fastplay s \<and>
   target_readouts (mark_trainable c s) = target_readouts s \<and>
   models_used (mark_trainable c s) = models_used s \<and>
   inject_noise_before_next_read (mark_trainable c s) = inject_noise_before_next_read s \<and>
   tree (mark_trainable c s) = tree s \<and> rnd (mark_trainable c s) = rnd s"
  by (simp add: mark_trainable_def)

lemma check_game_over_frame:
  "options (check_game_over T s) = options s \<and> fastplay (check_game_over T s) = fastplay s \<and>
   target_readouts (check_game_over T s) = target_readouts s \<and>
   models_used (check_game_over T s) = models_used s \<and>
   inject_noise_before_next_read (check_game_over T s) = inject_noise_before_next_read s \<and>
   tree (check_game_over T s) = tree s \<and> rnd (check_game_over T s) = rnd s"
  by (simp add: check_game_over_def)

lemma play_picked_move_frame:
  "options (play_picked_move T s) = options s \<and> fastplay (play_picked_move T s) = fastplay s \<and>
   target_readouts (play_picked_move T s) = target_readouts s \<and>
   inject_noise_before_next_read (play_picked_move T s) = inject_noise_before_next_read s \<and>
   models_used (play_picked_move T s) = models_used s"
proof (cases "pick_move T s")
  case (Pair c s1)
  then show ?thesis
    using pick_move_frame [OF Pair]
    by (simp add: play_picked_move_def check_game_over_frame mark_trainable_frame
          call_tree_frame reshape_final_visits_frame add_move_frame)
qed

lemma prepare_next_move_game: "game (prepare_next_move T R now s) = game s"
  by (auto simp: prepare_next_move_def call_tree_def Let_def
           dest: ShouldFastplay_frame split: prod.splits)

lemma prepare_next_move_live:
  assumes "\<not> game_over (game s)"
  shows "target_readouts (prepare_next_move T R now s) =
           root_N T s + (if fastplay (prepare_next_move T R now s) then fastplay_readouts (options s)
                         else num_readouts (options s))"
    and "tree (prepare_next_move T R now s) =
           (if \<not> fastplay (prepare_next_move T R now s) \<and> fastplay_frequency (options s) > 0
            then tree s @ [ClearSubtrees] else tree s)"
    and "inject_noise_before_next_read (prepare_next_move T R now s) =
           (\<not> fastplay (prepare_next_move T R now s))"
    and "fastplay (prepare_next_move T R now s) = fst (ShouldFastplay R s)"
    and "options (prepare_next_move T R now s) = options s"
  using assms
  by (auto simp: prepare_next_move_def call_tree_def Let_def root_N_def
           dest: ShouldFastplay_frame split: prod.splits)

section \<open>Recording the model name\<close>

text \<open>
  Claim C7, as amended. For every call to \<^verbatim>\<open>ProcessInferences\<close> with a non-empty
  \<^verbatim>\<open>model_name\<close>, \<^verbatim>\<open>models_used\<close> afterwards contains that name as its last
  element: the name is appended unless it already is the last element. So no two
  neighbouring elements are equal if that held before the call; a name can occur again
  further apart. A call with an empty \<^verbatim>\<open>model_name\<close> leaves \<^verbatim>\<open>models_used\<close>
  unchanged.
\<close>

theorem ProcessInferences_models_used:
  "(model_name \<noteq> [] \<longrightarrow>
      models_used (ProcessInferences model_name infs s) \<noteq> [] \<and>
      last (models_used (ProcessInferences model_name infs s)) = model_name \<and>
      model_name \<in> set (models_used (ProcessInferences model_name infs s)) \<and>
      models_used (ProcessInferences model_name infs s) =
        (if models_used s \<noteq> [] \<and> last (models_used s) = model_name
         then models_used s else models_used s @ [model_name]) \<and>
      (distinct_adj (models_used s) \<longrightarrow>
         distinct_adj (models_used (ProcessInferences model_name infs s)))) \<and>
   (model_name = [] \<longrightarrow> models_used (ProcessInferences model_name infs s) = models_used s)"
  by (auto simp: ProcessInferences_def record_model_name_def models_used_incorporate_all
        distinct_adj_append_iff)

theorem ProcessInferences_models_used_witness:
  "''a'' \<noteq> [] \<and> distinct_adj (models_used (demo_game\<lparr>models_used := [''a'', ''b'']\<rparr>)) \<and>
   models_used (ProcessInferences ''a'' [] (demo_game\<lparr>models_used := [''a'', ''b'']\<rparr>))
     = [''a'', ''b'', ''a''] \<and>
   distinct_adj
     (models_used (ProcessInferences ''a'' [] (demo_game\<lparr>models_used := [''a'', ''b'']\<rparr>))) \<and>
   models_used (ProcessInferences [] [] (demo_game\<lparr>models_used := [''a'', ''b'']\<rparr>))
     = [''a'', ''b'']"
  using ProcessInferences_models_used [of "''a''" "[]" "demo_game\<lparr>models_used := [''a'', ''b'']\<rparr>"]
        ProcessInferences_models_used [of "[]" "[]" "demo_game\<lparr>models_used := [''a'', ''b'']\<rparr>"]
  by simp

text \<open>
  Claim C7 as stated fails: the list is not free of duplicates. A game that is served by
  model \<open>a\<close>, then by model \<open>b\<close>, then by model \<open>a\<close> again records \<open>a\<close> twice.
\<close>

theorem models_used_repeats_counterexample:
  "\<not> distinct (models_used
       (ProcessInferences ''a'' []
          (ProcessInferences ''b'' [] (ProcessInferences ''a'' [] demo_game))))"
  by (simp add: ProcessInferences_def record_model_name_def demo_game_def new_SelfplayGame_def
        demo_random_def)

section \<open>Playing a move\<close>



text \<open>
  Claim C8. When \<^verbatim>\<open>MaybePlayMove\<close> fires (the visit count of the root has reached
  \<^verbatim>\<open>target_readouts\<close>) and \<^verbatim>\<open>ShouldResign\<close> holds, the call returns true, the game is
  over by resignation (won by the opponent of the side to move), and the move history is
  unchanged. No call is made on the tree, so \<^verbatim>\<open>PickMove\<close>, \<^verbatim>\<open>ReshapeFinalVisits\<close> and
  \<^verbatim>\<open>PlayMove\<close> are skipped, and the generator is not advanced.
\<close>

theorem MaybePlayMove_resign:
  assumes "\<not> root_N T s < target_readouts s" and "ShouldResign T s"
  shows "fst (MaybePlayMove T R now s) \<and>
         game_over (game (snd (MaybePlayMove T R now s))) \<and>
         game_result (game (snd (MaybePlayMove T R now s))) =
           Some (OverByResign (OtherColor (tree_to_play T (tree s)))) \<and>
         moves (game (snd (MaybePlayMove T R now s))) = moves (game s) \<and>
         tree (snd (MaybePlayMove T R now s)) = tree s \<and>
         rnd (snd (MaybePlayMove T R now s)) = rnd s"
  using assms
  by (simp add: MaybePlayMove_def prepare_next_move_def game_over_def
        SetGameOverBecauseOfResign_def)

theorem MaybePlayMove_resign_witness:
  "\<not> root_N demo_tree_losing demo_game_ready < target_readouts demo_game_ready \<and>
   ShouldResign demo_tree_losing demo_game_ready \<and>
   game_result (game (snd (MaybePlayMove demo_tree_losing demo_random 7 demo_game_ready))) =
     Some (OverByResign kWhite) \<and>
   moves (game (snd (MaybePlayMove demo_tree_losing demo_random 7 demo_game_ready))) = [] \<and>
   tree (snd (MaybePlayMove demo_tree_losing demo_random 7 demo_game_ready)) = []"
  using MaybePlayMove_resign [of demo_tree_losing demo_game_ready demo_random 7]
  by (simp add: root_N_def ShouldResign_def demo_defs)

section \<open>The shards of the inference cache\<close>

text \<open>
  Claim C6 says that the shard count of the inference cache is clamped to the number of
  games played in parallel before the cache is built, as the help text of
  \<^verbatim>\<open>cache_shards\<close> says too. \<^verbatim>\<open>Selfplayer::Run\<close> passes the flag on as it is: with the
  default flags, a cache of one megabyte and three games, the cache is built with 8 shards
  for 3 parallel games.
\<close>

theorem cache_shards_not_clamped:
  "case new_Selfplayer demo_random demo_game_options
          (default_flags\<lparr>FLAGS_model := ''m'', FLAGS_cache_size_mb := 1, FLAGS_num_games := 3\<rparr>) of
     Inl e \<Rightarrow> False
   | Inr sp \<Rightarrow> num_shards (Run_create_cache CalculateCapacity sp) = 8 \<and>
              parallel_games (flags sp) = 3"
  by (simp add: new_Selfplayer_def ParseFlags_def default_flags_def Run_create_cache_def
        parallel_games_def Let_def signed_divide_int_def int32_range_def)

section \<open>Selecting leaves\<close>

lemma MaybeQueueInference_cases:
  assumes "MaybeQueueInference T R lf cache s infs = (q, s', infs')"
  shows "(q \<and> s' = call_tree (AddVirtualLoss lf) s \<and> (\<exists>i. infs' = infs @ [i] \<and> leaf i = lf)) \<or>
         (\<not> q \<and> (\<exists>p v. s' = call_tree (IncorporateResults lf p v) s) \<and> infs' = infs)"
  using assms by (auto simp: MaybeQueueInference_def Let_def split: option.splits)

text \<open>What one pass through the loop body does.\<close>

lemma SelectLeaves_body_cases [consumes 1, case_names none terminal queue]:
  assumes "SelectLeaves_body T R cache s infs nq = (ex, nq', s', infs')"
  obtains
    (none) "tree_SelectLeaf T (tree s) (allow_pass (options s)) = None" "ex = Break" "nq' = nq"
      "s' = call_tree (SelectLeaf (allow_pass (options s))) s" "infs' = infs"
  | (terminal) lf v where "tree_SelectLeaf T (tree s) (allow_pass (options s)) = Some lf"
      "node_game_over T (tree s @ [SelectLeaf (allow_pass (options s))]) lf \<or>
       node_at_move_limit T (tree s @ [SelectLeaf (allow_pass (options s))]) lf"
      "ex = ToCondition" "nq' = nq" "infs' = infs"
      "s' = call_tree (IncorporateEndGameResult lf v)
              (call_tree (SelectLeaf (allow_pass (options s))) s)"
  | (queue) lf q s2 where "tree_SelectLeaf T (tree s) (allow_pass (options s)) = Some lf"
      "\<not> (node_game_over T (tree s @ [SelectLeaf (allow_pass (options s))]) lf \<or>
          node_at_move_limit T (tree s @ [SelectLeaf (allow_pass (options s))]) lf)"
      "MaybeQueueInference T R lf cache (call_tree (SelectLeaf (allow_pass (options s))) s) infs
         = (q, s2, infs')"
      "nq' = (if q then nq + 1 else nq)"
      "ex = (if lf = tree_root T (tree s2) then Break else ToCondition)"
      "s' = s2\<lparr>inject_noise_before_next_read :=
                 inject_noise_before_next_read s2 \<or> (lf = tree_root T (tree s2) \<and> \<not> fastplay s2)\<rparr>"
proof (cases "tree_SelectLeaf T (tree s) (allow_pass (options s))")
  case None
  with assms show ?thesis
    by (intro none) (simp_all add: SelectLeaves_body_def)
next
  case (Some lf)
  let ?s1 = "call_tree (SelectLeaf (allow_pass (options s))) s"
  have t1: "tree ?s1 = tree s @ [SelectLeaf (allow_pass (options s))]"
    by (simp add: call_tree_def)
  show ?thesis
  proof (cases "node_game_over T (tree ?s1) lf \<or> node_at_move_limit T (tree ?s1) lf")
    case True
    with assms Some show ?thesis
      by (intro terminal [of lf]) (auto simp: SelectLeaves_body_def Let_def t1 [symmetric])
  next
    case False
    obtain q s2 infs2 where m: "MaybeQueueInference T R lf cache ?s1 infs = (q, s2, infs2)"
      by (cases "MaybeQueueInference T R lf cache ?s1 infs") auto
    have r: "(ex, nq', s', infs') =
        (if lf = tree_root T (tree s2) then
           (Break, (if q then nq + 1 else nq),
            (if \<not> fastplay s2 then s2\<lparr>inject_noise_before_next_read := True\<rparr> else s2), infs2)
         else (ToCondition, (if q then nq + 1 else nq), s2, infs2))"
      using assms Some False m by (simp add: SelectLeaves_body_def Let_def)
    show ?thesis
    proof (rule queue [of lf q s2])
      show "tree_SelectLeaf T (tree s) (allow_pass (options s)) = Some lf" by (rule Some)
      show "\<not> (node_game_over T (tree s @ [SelectLeaf (allow_pass (options s))]) lf \<or>
          node_at_move_limit T (tree s @ [SelectLeaf (allow_pass (options s))]) lf)"
        using False by (simp add: t1)
      show "MaybeQueueInference T R lf cache ?s1 infs = (q, s2, infs')"
        using m r by (simp split: if_splits)
      show "nq' = (if q then nq + 1 else nq)" using r by (simp split: if_splits)
      show "ex = (if lf = tree_root T (tree s2) then Break else ToCondition)"
        using r by (simp split: if_splits)
      show "s' = s2\<lparr>inject_noise_before_next_read :=
                 inject_noise_before_next_read s2 \<or> (lf = tree_root T (tree s2) \<and> \<not> fastplay s2)\<rparr>"
        using r by (cases "lf = tree_root T (tree s2)"; cases "fastplay s2") simp_all
    qed
  qed
qed

lemma search_frame_refl: "search_frame s s"
  by (simp add: search_frame_def)

lemma search_frame_trans: "search_frame s s1 \<Longrightarrow> search_frame s1 s2 \<Longrightarrow> search_frame s s2"
  by (simp add: search_frame_def)

lemma search_frame_call_tree: "search_frame s (call_tree c s)"
  by (simp add: search_frame_def call_tree_def)

lemma SelectLeaves_body_effect:
  assumes "SelectLeaves_body T R cache s infs nq = (ex, nq', s', infs')"
  shows "\<exists>ev new.
           tree s' = tree s @ SelectLeaf (allow_pass (options s)) # ev \<and>
           infs' = infs @ new \<and> nq' = nq + int (length new) \<and> length new \<le> 1 \<and>
           virtual_loss_calls ev = map (\<lambda>i. AddVirtualLoss (leaf i)) new \<and>
           quiet ev \<and> filter is_SelectLeaf ev = [] \<and> search_frame s s' \<and> rnd s' = rnd s \<and>
           (inject_noise_before_next_read s \<longrightarrow> inject_noise_before_next_read s')"
  using assms
proof (cases rule: SelectLeaves_body_cases)
  case none
  then show ?thesis
    by (intro exI [of _ "[]"])
       (simp add: call_tree_def virtual_loss_calls_def quiet_def search_frame_def)
next
  case (terminal lf v)
  then show ?thesis
    by (intro exI [of _ "[IncorporateEndGameResult lf v]"] exI [of _ "[]"])
       (simp add: call_tree_def virtual_loss_calls_def quiet_def search_frame_def)
next
  case (queue lf q s2)
  from MaybeQueueInference_cases [OF queue(3)] show ?thesis
  proof (elim disjE conjE exE)
    fix i assume a: q "s2 = call_tree (AddVirtualLoss lf) (call_tree (SelectLeaf (allow_pass (options s))) s)"
      "infs' = infs @ [i]" "leaf i = lf"
    show ?thesis
      by (intro exI [of _ "[AddVirtualLoss lf]"] exI [of _ "[i]"])
         (simp add: queue(4,6) a call_tree_def virtual_loss_calls_def quiet_def search_frame_def)
  next
    fix p v assume a: "\<not> q"
      "s2 = call_tree (IncorporateResults lf p v) (call_tree (SelectLeaf (allow_pass (options s))) s)"
      "infs' = infs"
    show ?thesis
      by (intro exI [of _ "[IncorporateResults lf p v]"] exI [of _ "[]"])
         (simp add: queue(4,6) a call_tree_def virtual_loss_calls_def quiet_def search_frame_def)
  qed
qed

lemma SelectLeaves_loop_effect:
  assumes "SelectLeaves_loop fuel T R cache s infs nq = Some (n, s', infs')"
  shows "\<exists>ev new.
           tree s' = tree s @ ev \<and> infs' = infs @ new \<and> n = nq + int (length new) \<and>
           virtual_loss_calls ev = map (\<lambda>i. AddVirtualLoss (leaf i)) new \<and>
           quiet ev \<and> 1 \<le> length (filter is_SelectLeaf ev) \<and> search_frame s s' \<and>
           rnd s' = rnd s \<and> n \<le> max (nq + 1) (num_virtual_losses (options s)) \<and>
           (inject_noise_before_next_read s \<longrightarrow> inject_noise_before_next_read s')"
  using assms
proof (induction fuel arbitrary: s infs nq)
  case 0
  then show ?case by simp
next
  case (Suc fuel)
  obtain ex nq1 s1 infs1 where b: "SelectLeaves_body T R cache s infs nq = (ex, nq1, s1, infs1)"
    by (cases "SelectLeaves_body T R cache s infs nq") auto
  from SelectLeaves_body_effect [OF b] obtain ev1 new1 where e1:
    "tree s1 = tree s @ SelectLeaf (allow_pass (options s)) # ev1"
    "infs1 = infs @ new1" "nq1 = nq + int (length new1)" "length new1 \<le> 1"
    "virtual_loss_calls ev1 = map (\<lambda>i. AddVirtualLoss (leaf i)) new1"
    "quiet ev1" "search_frame s s1" "rnd s1 = rnd s"
    "inject_noise_before_next_read s \<longrightarrow> inject_noise_before_next_read s1"
    by blast
  have first: ?case if "(n, s', infs') = (nq1, s1, infs1)"
    using that e1
    by (intro exI [of _ "SelectLeaf (allow_pass (options s)) # ev1"] exI [of _ new1])
       (auto simp: virtual_loss_calls_def quiet_def)
  show ?case
  proof (cases "ex = ToCondition \<and> SelectLeaves_condition T s1 nq1")
    case False
    with Suc.prems b have "(n, s', infs') = (nq1, s1, infs1)"
      by (cases ex) (auto split: if_splits)
    then show ?thesis by (rule first)
  next
    case True
    with Suc.prems b have "SelectLeaves_loop fuel T R cache s1 infs1 nq1 = Some (n, s', infs')"
      by simp
    from Suc.IH [OF this] obtain ev2 new2 where e2:
      "tree s' = tree s1 @ ev2" "infs' = infs1 @ new2" "n = nq1 + int (length new2)"
      "virtual_loss_calls ev2 = map (\<lambda>i. AddVirtualLoss (leaf i)) new2"
      "quiet ev2" "search_frame s1 s'" "rnd s' = rnd s1"
      "n \<le> max (nq1 + 1) (num_virtual_losses (options s1))"
      "inject_noise_before_next_read s1 \<longrightarrow> inject_noise_before_next_read s'"
      by blast
    from True have lt: "nq1 < num_virtual_losses (options s1)"
      by (simp add: SelectLeaves_condition_def)
    have opt: "options s1 = options s" using e1(7) by (simp add: search_frame_def)
    show ?thesis
      using e1 e2 lt opt search_frame_trans [OF e1(7) e2(6)]
      by (intro exI [of _ "SelectLeaf (allow_pass (options s)) # ev1 @ ev2"] exI [of _ "new1 @ new2"])
         (auto simp: virtual_loss_calls_def quiet_def)
  qed
qed

lemma incorporate_all_tree:
  "\<exists>ev. tree (incorporate_all infs s) = tree s @ ev \<and>
        virtual_loss_calls ev = map (\<lambda>i. RevertVirtualLoss (leaf i)) infs \<and> quiet ev \<and>
        filter is_SelectLeaf ev = [] \<and>
        (\<forall>i \<in> set infs. IncorporateResults (leaf i) (policy (inf_output i)) (out_value (inf_output i))
                            \<in> set ev)"
proof (induction infs arbitrary: s)
  case Nil
  then show ?case by (simp add: virtual_loss_calls_def quiet_def)
next
  case (Cons i rest)
  let ?s1 = "call_tree (RevertVirtualLoss (leaf i))
               (call_tree (IncorporateResults (leaf i) (policy (inf_output i))
                             (out_value (inf_output i))) s)"
  from Cons.IH [of ?s1] obtain ev where ev: "tree (incorporate_all rest ?s1) = tree ?s1 @ ev"
    "virtual_loss_calls ev = map (\<lambda>i. RevertVirtualLoss (leaf i)) rest" "quiet ev"
    "filter is_SelectLeaf ev = []"
    "\<forall>i \<in> set rest. IncorporateResults (leaf i) (policy (inf_output i)) (out_value (inf_output i))
                            \<in> set ev"
    by blast
  show ?case
    using ev
    by (intro exI [of _ "IncorporateResults (leaf i) (policy (inf_output i))
                           (out_value (inf_output i)) # RevertVirtualLoss (leaf i) # ev"])
       (auto simp: call_tree_def virtual_loss_calls_def quiet_def)
qed

lemma ProcessInferences_tree:
  "tree (ProcessInferences name infs s) = tree (incorporate_all infs s)"
proof -
  have *: "tree (incorporate_all infs s1) = tree (incorporate_all infs s2)"
    if "tree s1 = tree s2" for s1 s2 :: SelfplayGame
    using that by (induction infs arbitrary: s1 s2) (simp_all add: call_tree_def)
  have "tree (record_model_name name s) = tree s"
    by (simp add: record_model_name_def)
  from * [OF this] show ?thesis
    by (simp only: ProcessInferences_def)
qed

lemma leaf_run_model: "map leaf (run_model m infs) = map leaf infs"
  by (simp add: run_model_def)

lemma InjectNoise_effect:
  "\<exists>noise. tree (SelfplayGame_InjectNoise R s) = tree s @ [InjectNoise noise (noise_mix (options s))] \<and>
           search_frame s (SelfplayGame_InjectNoise R s) \<and>
           inject_noise_before_next_read (SelfplayGame_InjectNoise R s)
             = inject_noise_before_next_read s"
  by (simp add: SelfplayGame_InjectNoise_def call_tree_def search_frame_def split: prod.splits)

text \<open>The effect of a whole call of SelectLeaves.\<close>

lemma SelectLeaves_effect:
  assumes "SelectLeaves fuel T R cache s infs = Some (n, s', infs')"
  shows "\<exists>pre ev new.
           tree s' = tree s @ pre @ ev \<and>
           (if inject_noise_before_next_read s
            then \<exists>noise. pre = [InjectNoise noise (noise_mix (options s))] else pre = []) \<and>
           infs' = infs @ new \<and> n = int (length new) \<and>
           virtual_loss_calls ev = map (\<lambda>i. AddVirtualLoss (leaf i)) new \<and>
           quiet ev \<and> 1 \<le> length (filter is_SelectLeaf ev) \<and> search_frame s s' \<and>
           n \<le> max 1 (num_virtual_losses (options s))"
proof (cases "inject_noise_before_next_read s")
  case False
  with assms have "SelectLeaves_loop fuel T R cache s infs 0 = Some (n, s', infs')"
    by (simp add: SelectLeaves_def inject_pending_noise_def)
  from SelectLeaves_loop_effect [OF this] obtain ev new where e:
    "tree s' = tree s @ ev" "infs' = infs @ new" "n = 0 + int (length new)"
    "virtual_loss_calls ev = map (\<lambda>i. AddVirtualLoss (leaf i)) new" "quiet ev"
    "1 \<le> length (filter is_SelectLeaf ev)" "search_frame s s'"
    "n \<le> max (0 + 1) (num_virtual_losses (options s))"
    by blast
  with False show ?thesis
    by (intro exI [of _ "[]"] exI [of _ ev] exI [of _ new]) simp
next
  case True
  let ?s0 = "SelfplayGame_InjectNoise R (s\<lparr>inject_noise_before_next_read := False\<rparr>)"
  from InjectNoise_effect [of R "s\<lparr>inject_noise_before_next_read := False\<rparr>"]
  obtain noise where n0: "tree ?s0 = tree s @ [InjectNoise noise (noise_mix (options s))]"
    "search_frame s ?s0"
    by (auto simp: search_frame_def)
  from True assms have "SelectLeaves_loop fuel T R cache ?s0 infs 0 = Some (n, s', infs')"
    by (simp add: SelectLeaves_def inject_pending_noise_def)
  from SelectLeaves_loop_effect [OF this] obtain ev new where e:
    "tree s' = tree ?s0 @ ev" "infs' = infs @ new" "n = 0 + int (length new)"
    "virtual_loss_calls ev = map (\<lambda>i. AddVirtualLoss (leaf i)) new" "quiet ev"
    "1 \<le> length (filter is_SelectLeaf ev)" "search_frame ?s0 s'"
    "n \<le> max (0 + 1) (num_virtual_losses (options ?s0))"
    by blast
  have "options ?s0 = options s" using n0(2) by (simp add: search_frame_def)
  with e n0 True search_frame_trans [OF n0(2) e(7)] show ?thesis
    by (intro exI [of _ "[InjectNoise noise (noise_mix (options s))]"] exI [of _ ev] exI [of _ new])
       simp
qed

text \<open>
  Claim C1. During a call of \<^verbatim>\<open>SelectLeaves\<close> the calls that touch a virtual loss are
  exactly one \<^verbatim>\<open>AddVirtualLoss\<close> for each inference that the call queues, on the leaf of
  that inference and in the order of the queue: a leaf that is handled as a finished game or
  from the cache gets none. When \<^verbatim>\<open>ProcessInferences\<close> then handles these inferences
  (with the outputs the model has filled in), the calls that touch a virtual loss are exactly
  one \<^verbatim>\<open>RevertVirtualLoss\<close> for each of them, on the same leaves.
\<close>

theorem virtual_loss_balance:
  assumes "SelectLeaves fuel T R cache s infs = Some (n, s', infs')"
  shows "\<exists>ev new.
           tree s' = tree s @ ev \<and> infs' = infs @ new \<and> n = int (length new) \<and>
           virtual_loss_calls ev = map (\<lambda>i. AddVirtualLoss (leaf i)) new \<and>
           (\<forall>name m. \<exists>ev2.
              tree (ProcessInferences name (run_model m new) s') = tree s' @ ev2 \<and>
              virtual_loss_calls ev2 = map (\<lambda>i. RevertVirtualLoss (leaf i)) new)"
proof -
  from SelectLeaves_effect [OF assms] obtain pre ev new where e:
    "tree s' = tree s @ pre @ ev"
    "if inject_noise_before_next_read s
     then \<exists>noise. pre = [InjectNoise noise (noise_mix (options s))] else pre = []"
    "infs' = infs @ new" "n = int (length new)"
    "virtual_loss_calls ev = map (\<lambda>i. AddVirtualLoss (leaf i)) new"
    by blast
  from e(2) have "virtual_loss_calls pre = []"
    by (auto simp: virtual_loss_calls_def split: if_splits)
  then have v: "virtual_loss_calls (pre @ ev) = map (\<lambda>i. AddVirtualLoss (leaf i)) new"
    using e(5) by (simp add: virtual_loss_calls_def)
  have "\<exists>ev2. tree (ProcessInferences name (run_model m new) s') = tree s' @ ev2 \<and>
              virtual_loss_calls ev2 = map (\<lambda>i. RevertVirtualLoss (leaf i)) new" for name m
    using incorporate_all_tree [of "run_model m new" s']
    by (auto simp: ProcessInferences_tree run_model_def comp_def)
  with e v show ?thesis
    by (intro exI [of _ "pre @ ev"] exI [of _ new]) simp
qed

theorem virtual_loss_balance_witness:
  "\<exists>n s' infs'.
     SelectLeaves 5 demo_tree demo_random null_cache demo_game [] = Some (n, s', infs') \<and>
     (\<exists>ev new.
        tree s' = tree demo_game @ ev \<and> infs' = [] @ new \<and> n = int (length new) \<and>
        virtual_loss_calls ev = map (\<lambda>i. AddVirtualLoss (leaf i)) new \<and>
        (\<forall>name m. \<exists>ev2.
           tree (ProcessInferences name (run_model m new) s') = tree s' @ ev2 \<and>
           virtual_loss_calls ev2 = map (\<lambda>i. RevertVirtualLoss (leaf i)) new))"
proof -
  have "SelectLeaves 5 demo_tree demo_random null_cache demo_game [] \<noteq> None"
    by code_simp
  then obtain n s' infs' where
    h: "SelectLeaves 5 demo_tree demo_random null_cache demo_game [] = Some (n, s', infs')"
    by (cases "SelectLeaves 5 demo_tree demo_random null_cache demo_game []") auto
  from virtual_loss_balance [OF h] obtain ev new where
    "tree s' = tree demo_game @ ev \<and> infs' = [] @ new \<and> n = int (length new) \<and>
     virtual_loss_calls ev = map (\<lambda>i. AddVirtualLoss (leaf i)) new \<and>
     (\<forall>name m. \<exists>ev2.
        tree (ProcessInferences name (run_model m new) s') = tree s' @ ev2 \<and>
        virtual_loss_calls ev2 = map (\<lambda>i. RevertVirtualLoss (leaf i)) new)"
    by blast
  with h show ?thesis
    by (intro exI [of _ n] exI [of _ s'] exI [of _ infs'] conjI) (assumption, rule exI, rule exI)
qed

section \<open>The loop of SelectLeaves\<close>




lemma MaybeQueueInference_frame:
  assumes "MaybeQueueInference T R lf cache s infs = (q, s2, infs2)"
  shows "fastplay s2 = fastplay s"
    and "inject_noise_before_next_read s2 = inject_noise_before_next_read s"
  using MaybeQueueInference_cases [OF assms] by (auto simp: call_tree_def)







section \<open>The slots of a thread\<close>








section \<open>A game from its first cycle on\<close>

lemma play_cycles_invariant:
  assumes "P s"
    and "\<And>ci s s'. P s \<Longrightarrow> \<not> game_over (game s) \<Longrightarrow> game_cycle T R ci s = Some s' \<Longrightarrow> P s'"
    and "play_cycles T R cycles s = Some s'"
  shows "P s'"
  using assms(1,3)
proof (induction cycles arbitrary: s)
  case Nil
  then show ?case by simp
next
  case (Cons ci rest)
  show ?case
  proof (cases "game_over (game s)")
    case True
    with Cons.prems show ?thesis by simp
  next
    case False
    with Cons.prems(2) obtain s1 where s1: "game_cycle T R ci s = Some s1"
      "play_cycles T R rest s1 = Some s'"
      by (auto split: option.splits)
    from assms(2) [OF Cons.prems(1) False s1(1)] have "P s1" .
    from Cons.IH [OF this s1(2)] show ?thesis .
  qed
qed

lemma incorporate_all_frame:
  "options (incorporate_all infs s) = options s \<and> fastplay (incorporate_all infs s) = fastplay s \<and>
   target_readouts (incorporate_all infs s) = target_readouts s \<and>
   game (incorporate_all infs s) = game s \<and> rnd (incorporate_all infs s) = rnd s \<and>
   inject_noise_before_next_read (incorporate_all infs s) = inject_noise_before_next_read s"
  by (induction infs arbitrary: s) (simp_all add: call_tree_def)

lemma ProcessInferences_frame:
  "options (ProcessInferences name infs s) = options s \<and>
   fastplay (ProcessInferences name infs s) = fastplay s \<and>
   target_readouts (ProcessInferences name infs s) = target_readouts s \<and>
   game (ProcessInferences name infs s) = game s \<and>
   rnd (ProcessInferences name infs s) = rnd s \<and>
   inject_noise_before_next_read (ProcessInferences name infs s) = inject_noise_before_next_read s"
  by (simp add: ProcessInferences_def incorporate_all_frame record_model_name_def)

lemma play_picked_move_moves:
  "\<exists>m. moves (game (play_picked_move T s)) = moves (game s) @ [m]"
proof (cases "pick_move T s")
  case (Pair c s1)
  have g1: "game s1 = game s" using pick_move_frame [OF Pair] by simp
  let ?s2 = "add_move T c s1"
  obtain m where m: "moves (game ?s2) = moves (game s) @ [m]"
    by (simp add: add_move_def AddMove_def Let_def g1)
  let ?s4 = "call_tree (PlayMove c) (reshape_final_visits ?s2)"
  have g4: "game ?s4 = game ?s2"
    by (simp add: call_tree_frame reshape_final_visits_frame)
  have "\<exists>m'. moves (game (mark_trainable c ?s4)) = moves (game s) @ [m']"
    using m by (simp add: mark_trainable_def MarkLastMoveAsTrainable_def g4)
  moreover have "moves (game (check_game_over T x)) = moves (game x)" for x
    by (simp add: check_game_over_def SetGameOverBecauseMoveLimitReached_def
          SetGameOverBecauseOfPasses_def)
  ultimately show ?thesis
    by (simp add: play_picked_move_def Pair)
qed

text \<open>What \<^verbatim>\<open>MaybePlayMove\<close> does to the flags and to the move history.\<close>

lemma MaybePlayMove_cases [consumes 1, case_names wait resign over live]:
  assumes "MaybePlayMove T R now s = (played, s')"
  obtains
    (wait) "\<not> played" "s' = s"
  | (resign) "played" "game_over (game s')" "moves (game s') = moves (game s)"
      "fastplay s' = fastplay s" "options s' = options s" "tree s' = tree s"
      "inject_noise_before_next_read s' = inject_noise_before_next_read s"
  | (over) m where "played" "game_over (game s')" "moves (game s') = moves (game s) @ [m]"
      "fastplay s' = fastplay s" "options s' = options s"
      "inject_noise_before_next_read s' = inject_noise_before_next_read s"
      "\<not> ShouldResign T s" "\<not> root_N T s < target_readouts s"
  | (live) m where "played" "\<not> game_over (game s')" "moves (game s') = moves (game s) @ [m]"
      "fastplay s' = fst (ShouldFastplay R (play_picked_move T s))" "options s' = options s"
      "inject_noise_before_next_read s' = (\<not> fastplay s')"
      "\<not> ShouldResign T s" "\<not> root_N T s < target_readouts s"
proof (cases "root_N T s < target_readouts s")
  case True
  with assms show ?thesis by (intro wait) (simp_all add: MaybePlayMove_def)
next
  case False
  show ?thesis
  proof (cases "ShouldResign T s")
    case True
    with False assms show ?thesis
      by (intro resign)
         (auto simp: MaybePlayMove_def prepare_next_move_def game_over_def
            SetGameOverBecauseOfResign_def)
  next
    case nr: False
    let ?s1 = "play_picked_move T s"
    from False nr assms have eq: "played" "s' = prepare_next_move T R now ?s1"
      by (auto simp: MaybePlayMove_def)
    obtain m where m: "moves (game ?s1) = moves (game s) @ [m]"
      using play_picked_move_moves by blast
    have g: "game s' = game ?s1" by (simp add: eq prepare_next_move_game)
    show ?thesis
    proof (cases "game_over (game ?s1)")
      case True
      then have "s' = ?s1\<lparr>duration := now - start_time ?s1\<rparr>"
        by (simp add: eq prepare_next_move_def)
      with True m g eq(1) False show ?thesis
        by (intro over [of m]) (simp_all add: play_picked_move_frame nr)
    next
      case lv: False
      from prepare_next_move_live [OF lv, of T R now] lv m g eq False show ?thesis
        by (intro live [of m]) (simp_all add: play_picked_move_frame nr)
    qed
  qed
qed

lemma ShouldFastplay_value:
  "fst (ShouldFastplay R s) =
     (fastplay_frequency (options s) > 0 \<and>
      fst (rnd_uniform R (rnd s)) < fastplay_frequency (options s))"
  by (simp add: ShouldFastplay_def split: prod.splits)

text \<open>One cycle of a game, in three steps.\<close>

lemma game_cycle_cases:
  assumes "game_cycle T R ci s = Some s'"
  obtains n s1 infs s2 played where
    "SelectLeaves (ci_fuel ci) T R (ci_cache ci) s [] = Some (n, s1, infs)"
    "s2 = (if n > 0 then ProcessInferences (ci_model_name ci) (run_model (ci_model ci) infs) s1
           else s1)"
    "MaybePlayMove T R (ci_now ci) s2 = (played, s')"
proof -
  from assms obtain n s1 infs where
    sl: "SelectLeaves (ci_fuel ci) T R (ci_cache ci) s [] = Some (n, s1, infs)"
    by (auto simp: game_cycle_def split: option.splits)
  let ?s2 = "if n > 0 then ProcessInferences (ci_model_name ci) (run_model (ci_model ci) infs) s1
             else s1"
  from assms sl have "s' = snd (MaybePlayMove T R (ci_now ci) ?s2)"
    by (simp add: game_cycle_def Let_def)
  then have "MaybePlayMove T R (ci_now ci) ?s2 = (fst (MaybePlayMove T R (ci_now ci) ?s2), s')"
    by simp
  with sl show ?thesis by (rule that [OF _ refl])
qed

lemma fastplay_inv_cycle:
  assumes "fastplay_inv R s" and "game_cycle T R ci s = Some s'"
  shows "fastplay_inv R s' \<and> options s' = options s"
  using assms(2)
proof (cases rule: game_cycle_cases)
  case (1 n s1 infs s2 played)
  from SelectLeaves_effect [OF 1(1)] have f1: "search_frame s s1" by blast
  have f2: "options s2 = options s" "fastplay s2 = fastplay s" "game s2 = game s"
    using f1 by (auto simp: 1(2) ProcessInferences_frame search_frame_def)
  from assms(1) have i2: "fastplay_inv R s2"
    by (simp add: fastplay_inv_def f2)
  from 1(3) show ?thesis
  proof (cases rule: MaybePlayMove_cases)
    case wait
    with i2 f2 show ?thesis by simp
  next
    case resign
    with i2 f2 show ?thesis by (simp add: fastplay_inv_def)
  next
    case (over m)
    with i2 f2 show ?thesis by (simp add: fastplay_inv_def)
  next
    case (live m)
    have o: "options (play_picked_move T s2) = options s2"
      by (simp add: play_picked_move_frame)
    have "fastplay s' =
        (fastplay_frequency (options s2) > 0 \<and>
         fst (rnd_uniform R (rnd (play_picked_move T s2))) < fastplay_frequency (options s2))"
      by (simp add: live(4) ShouldFastplay_value o)
    with live f2 show ?thesis
      by (auto simp: fastplay_inv_def uniform_below_one_def)
  qed
qed

text \<open>
  Claim C5. In every state that a new game reaches between two cycles: as long as no move
  has been played the game is not in fast play (the flag starts false and is only sampled
  again after a move was played and the game goes on); if \<^verbatim>\<open>fastplay_frequency\<close> is 0 the
  game is never in fast play; if \<^verbatim>\<open>fastplay_frequency\<close> is 1 and the generator returns
  numbers below 1, the game is in fast play whenever a move has been played and the game is
  not over.
\<close>

theorem fastplay_moves:
  assumes "play_cycles T R cycles (new_SelfplayGame R opts (new_Game b w gopts) [] rnd0 now) = Some s"
  shows "(moves (game s) = [] \<longrightarrow> \<not> fastplay s) \<and>
         (fastplay_frequency opts = 0 \<longrightarrow> \<not> fastplay s) \<and>
         (fastplay_frequency opts = 1 \<and> uniform_below_one R \<and> moves (game s) \<noteq> [] \<and>
          \<not> game_over (game s) \<longrightarrow> fastplay s)"
proof -
  let ?s0 = "new_SelfplayGame R opts (new_Game b w gopts) [] rnd0 now"
  let ?P = "\<lambda>s. fastplay_inv R s \<and> options s = opts"
  have "?P ?s0"
    by (simp add: fastplay_inv_def new_SelfplayGame_def new_Game_def split: prod.splits)
  moreover have "?P s'" if "?P s" "game_cycle T R ci s = Some s'" for ci s s'
    using fastplay_inv_cycle [OF _ that(2)] that(1) by simp
  ultimately have "?P s"
    using assms by (rule play_cycles_invariant [where P = ?P])
  then show ?thesis by (simp add: fastplay_inv_def)
qed

theorem fastplay_moves_witness:
  "play_cycles demo_tree demo_random [demo_cycle, demo_cycle]
     (new_SelfplayGame demo_random (demo_options\<lparr>fastplay_frequency := 1\<rparr>)
        (new_Game ''m'' ''m'' demo_game_options) [] 0 0) \<noteq> None \<and>
   fastplay_frequency (demo_options\<lparr>fastplay_frequency := 1\<rparr>) = 1 \<and>
   uniform_below_one demo_random \<and>
   length (moves (game (the (play_cycles demo_tree demo_random [demo_cycle, demo_cycle]
     (new_SelfplayGame demo_random (demo_options\<lparr>fastplay_frequency := 1\<rparr>)
        (new_Game ''m'' ''m'' demo_game_options) [] 0 0))))) = 1 \<and>
   \<not> game_over (game (the (play_cycles demo_tree demo_random [demo_cycle, demo_cycle]
     (new_SelfplayGame demo_random (demo_options\<lparr>fastplay_frequency := 1\<rparr>)
        (new_Game ''m'' ''m'' demo_game_options) [] 0 0)))) \<and>
   fastplay (the (play_cycles demo_tree demo_random [demo_cycle, demo_cycle]
     (new_SelfplayGame demo_random (demo_options\<lparr>fastplay_frequency := 1\<rparr>)
        (new_Game ''m'' ''m'' demo_game_options) [] 0 0))) \<and>
   fastplay_frequency demo_options = 0 \<and>
   play_cycles demo_tree demo_random [demo_cycle, demo_cycle]
     (new_SelfplayGame demo_random demo_options (new_Game ''m'' ''m'' demo_game_options) [] 0 0)
     \<noteq> None \<and>
   \<not> fastplay (the (play_cycles demo_tree demo_random [demo_cycle, demo_cycle]
     (new_SelfplayGame demo_random demo_options (new_Game ''m'' ''m'' demo_game_options) [] 0 0)))"
proof -
  let ?run1 = "play_cycles demo_tree demo_random [demo_cycle, demo_cycle]
     (new_SelfplayGame demo_random (demo_options\<lparr>fastplay_frequency := 1\<rparr>)
        (new_Game ''m'' ''m'' demo_game_options) [] 0 0)"
  let ?run0 = "play_cycles demo_tree demo_random [demo_cycle, demo_cycle]
     (new_SelfplayGame demo_random demo_options (new_Game ''m'' ''m'' demo_game_options) [] 0 0)"
  have ne1: "?run1 \<noteq> None" by code_simp
  have ne0: "?run0 \<noteq> None" by code_simp
  have m1: "length (moves (game (the ?run1))) = 1" by code_simp
  have l1: "\<not> game_over (game (the ?run1))" by code_simp
  have u: "uniform_below_one demo_random"
    by (simp add: uniform_below_one_def demo_random_def)
  have f: "fastplay_frequency (demo_options\<lparr>fastplay_frequency := 1\<rparr>) = 1"
    "fastplay_frequency demo_options = 0"
    by (simp_all add: demo_options_def)
  from ne1 have r1: "?run1 = Some (the ?run1)" by simp
  from ne0 have r0: "?run0 = Some (the ?run0)" by simp
  from fastplay_moves [OF r1] f(1) u m1 l1 have "fastplay (the ?run1)" by auto
  moreover from fastplay_moves [OF r0] f(2) have "\<not> fastplay (the ?run0)" by blast
  ultimately show ?thesis using ne1 ne0 m1 l1 u f by blast
qed

section \<open>Noise injection\<close>

lemma current_move_append:
  assumes "\<forall>c \<in> set ev. \<not> is_PlayMove c"
  shows "current_move (h @ ev) = current_move h @ ev"
proof -
  have "takeWhile (\<lambda>c. \<not> is_PlayMove c) (rev ev @ rev h) =
          rev ev @ takeWhile (\<lambda>c. \<not> is_PlayMove c) (rev h)"
    using assms by (intro takeWhile_append2) simp
  then show ?thesis by (simp add: current_move_def)
qed

lemma current_move_PlayMove:
  assumes "\<forall>x \<in> set ev. \<not> is_PlayMove x"
  shows "current_move (h @ PlayMove c # ev) = ev"
proof -
  have "takeWhile (\<lambda>c. \<not> is_PlayMove c) (rev ev @ PlayMove c # rev h) =
          rev ev @ takeWhile (\<lambda>c. \<not> is_PlayMove c) (PlayMove c # rev h)"
    using assms by (intro takeWhile_append2) simp
  then show ?thesis by (simp add: current_move_def)
qed

lemma injections_append: "injections (a @ b) = injections a + injections b"
  by (simp add: injections_def)

lemma injections_quiet: "quiet ev \<Longrightarrow> injections ev = 0"
  by (simp add: quiet_def injections_def)

lemma injections_none: "\<forall>c \<in> set ev. \<not> is_InjectNoise c \<Longrightarrow> injections ev = 0"
  by (simp add: injections_def)

lemma noise_once_per_move_snoc:
  assumes "noise_once_per_move h"
    and "is_InjectNoise c \<Longrightarrow> injections (current_move h) = 0"
  shows "noise_once_per_move (h @ [c])"
  unfolding noise_once_per_move_def
proof (intro allI impI, elim conjE)
  fix h1 seg h2
  assume eq: "h @ [c] = h1 @ seg @ h2" and np: "\<forall>c \<in> set seg. \<not> is_PlayMove c"
  show "injections seg \<le> 1"
  proof (cases h2 rule: rev_cases)
    case (snoc h2' x)
    with eq have "h = h1 @ seg @ h2'" by simp
    with assms(1) np show ?thesis unfolding noise_once_per_move_def by blast
  next
    case Nil
    show ?thesis
    proof (cases seg rule: rev_cases)
      case Nil
      then show ?thesis by (simp add: injections_def)
    next
      case (snoc seg' x)
      with eq \<open>h2 = []\<close> have h: "h = h1 @ seg'" and x: "x = c" by simp_all
      from np snoc have np': "\<forall>c \<in> set seg'. \<not> is_PlayMove c" by simp
      from assms(1) h np' have le: "injections seg' \<le> 1"
        unfolding noise_once_per_move_def by (metis append_Nil2)
      show ?thesis
      proof (cases "is_InjectNoise c")
        case False
        with le snoc x show ?thesis by (simp add: injections_def)
      next
        case True
        from assms(2) [OF True] have "injections (current_move h1 @ seg') = 0"
          by (simp add: h current_move_append [OF np'])
        then have "injections seg' = 0" by (simp add: injections_append)
        with snoc x show ?thesis by (simp add: injections_def)
      qed
    qed
  qed
qed

lemma noise_once_per_move_append:
  assumes "noise_once_per_move h" and "\<forall>c \<in> set ev. \<not> is_InjectNoise c"
  shows "noise_once_per_move (h @ ev)"
  using assms(2)
proof (induction ev rule: rev_induct)
  case Nil
  then show ?case using assms(1) by simp
next
  case (snoc x xs)
  then have "noise_once_per_move (h @ xs)" by simp
  from noise_once_per_move_snoc [OF this, of x] snoc.prems show ?case by simp
qed

lemma noise_once_per_move_Nil: "noise_once_per_move []"
  by (simp add: noise_once_per_move_def injections_def)

lemma root_expanded_append: "root_expanded T h \<Longrightarrow> root_expanded T (h @ ev)"
  unfolding root_expanded_def
  by (elim exE conjE) (rule_tac x = h0 in exI, rule_tac x = ap in exI, rule_tac x = e in exI,
      rule_tac x = "rest @ ev" in exI, auto)

lemma root_pending_processed:
  assumes "root_pending T h infs"
    and "\<forall>i \<in> set infs. \<exists>p v. IncorporateResults (leaf i) p v \<in> set ev"
  shows "root_expanded T (h @ ev)"
proof -
  from assms(1) obtain h0 ap rest r where p:
    "h = h0 @ SelectLeaf ap # AddVirtualLoss r # rest" "tree_SelectLeaf T h0 ap = Some r"
    "tree_root T (h0 @ [SelectLeaf ap, AddVirtualLoss r]) = r" "r \<in> leaf ` set infs"
    unfolding root_pending_def by blast
  from p(4) assms(2) obtain pp v where "IncorporateResults r pp v \<in> set ev" by auto
  with p show ?thesis
    unfolding root_expanded_def
    by (intro exI [of _ h0] exI [of _ ap] exI [of _ "AddVirtualLoss r"] exI [of _ "rest @ ev"]
          exI [of _ r] exI [of _ pp] exI [of _ v]) simp
qed

lemma noise_after_expansion_append:
  assumes "noise_after_expansion T h" and "\<forall>c \<in> set ev. \<not> is_InjectNoise c"
  shows "noise_after_expansion T (h @ ev)"
  unfolding noise_after_expansion_def
proof (intro allI impI, elim conjE)
  fix h1 noise mix h2
  assume eq: "h @ ev = h1 @ InjectNoise noise mix # h2" and np: "\<forall>c \<in> set h1. \<not> is_PlayMove c"
  from eq obtain us where
    "(h = h1 @ us \<and> us @ ev = InjectNoise noise mix # h2) \<or>
     (h @ us = h1 \<and> ev = us @ InjectNoise noise mix # h2)"
    by (auto simp: append_eq_append_conv2)
  then show "root_expanded T h1"
  proof
    assume a: "h = h1 @ us \<and> us @ ev = InjectNoise noise mix # h2"
    show ?thesis
    proof (cases us)
      case Nil
      with a assms(2) show ?thesis by auto
    next
      case (Cons u us')
      with a have "h = h1 @ InjectNoise noise mix # us'" by simp
      with assms(1) np show ?thesis unfolding noise_after_expansion_def by blast
    qed
  next
    assume "h @ us = h1 \<and> ev = us @ InjectNoise noise mix # h2"
    with assms(2) show ?thesis by auto
  qed
qed

lemma noise_after_expansion_noise:
  assumes "noise_after_expansion T h"
    and "(\<forall>c \<in> set h. \<not> is_PlayMove c) \<Longrightarrow> root_expanded T h"
  shows "noise_after_expansion T (h @ [InjectNoise noise mix])"
  unfolding noise_after_expansion_def
proof (intro allI impI, elim conjE)
  fix h1 noise' mix' h2
  assume eq: "h @ [InjectNoise noise mix] = h1 @ InjectNoise noise' mix' # h2"
    and np: "\<forall>c \<in> set h1. \<not> is_PlayMove c"
  show "root_expanded T h1"
  proof (cases h2 rule: rev_cases)
    case Nil
    with eq have "h1 = h" by simp
    with assms(2) np show ?thesis by simp
  next
    case (snoc h2' x)
    with eq have "h = h1 @ InjectNoise noise' mix' # h2'" by simp
    with assms(1) np show ?thesis unfolding noise_after_expansion_def by blast
  qed
qed

lemma play_picked_move_tree:
  "\<exists>pre c. tree (play_picked_move T s) = tree s @ pre @ [PlayMove c] \<and>
           (\<forall>x \<in> set pre. \<not> is_InjectNoise x)"
proof (cases "pick_move T s")
  case (Pair c s1)
  have t1: "tree s1 = tree s @ [PickMove]" using pick_move_frame [OF Pair] by simp
  have "tree (reshape_final_visits (add_move T c s1)) = tree s @ [PickMove] \<or>
        tree (reshape_final_visits (add_move T c s1)) = tree s @ [PickMove, ReshapeFinalVisits]"
    by (simp add: reshape_final_visits_def call_tree_def add_move_frame t1)
  then have "tree (play_picked_move T s) = tree s @ [PickMove] @ [PlayMove c] \<or>
        tree (play_picked_move T s) = tree s @ [PickMove, ReshapeFinalVisits] @ [PlayMove c]"
    by (auto simp: play_picked_move_def Pair check_game_over_frame mark_trainable_frame
          call_tree_frame)
  then show ?thesis
  proof
    assume "tree (play_picked_move T s) = tree s @ [PickMove] @ [PlayMove c]"
    then show ?thesis by (intro exI [of _ "[PickMove]"] exI [of _ c]) simp
  next
    assume "tree (play_picked_move T s) = tree s @ [PickMove, ReshapeFinalVisits] @ [PlayMove c]"
    then show ?thesis by (intro exI [of _ "[PickMove, ReshapeFinalVisits]"] exI [of _ c]) simp
  qed
qed

lemma prepare_next_move_tree:
  "tree (prepare_next_move T R now s) = tree s \<or>
   tree (prepare_next_move T R now s) = tree s @ [ClearSubtrees]"
proof (cases "game_over (game s)")
  case True
  then show ?thesis by (simp add: prepare_next_move_def)
next
  case False
  from prepare_next_move_live(2) [OF False, of T R now] show ?thesis by (auto split: if_splits)
qed

lemma MaybePlayMove_played_tree:
  assumes "MaybePlayMove T R now s = (played, s')" and "\<not> root_N T s < target_readouts s"
    and "\<not> ShouldResign T s"
  shows "\<exists>pre c post. tree s' = tree s @ pre @ PlayMove c # post \<and>
           (\<forall>x \<in> set pre. \<not> is_InjectNoise x) \<and>
           (\<forall>x \<in> set post. \<not> is_InjectNoise x \<and> \<not> is_PlayMove x)"
proof -
  from assms have eq: "s' = prepare_next_move T R now (play_picked_move T s)"
    by (auto simp: MaybePlayMove_def)
  from play_picked_move_tree [of T s] obtain pre c where
    p: "tree (play_picked_move T s) = tree s @ pre @ [PlayMove c]"
       "\<forall>x \<in> set pre. \<not> is_InjectNoise x"
    by blast
  from prepare_next_move_tree [of T R now "play_picked_move T s"] show ?thesis
  proof
    assume "tree (prepare_next_move T R now (play_picked_move T s)) = tree (play_picked_move T s)"
    with p eq show ?thesis
      by (intro exI [of _ pre] exI [of _ c] exI [of _ "[]"]) simp
  next
    assume "tree (prepare_next_move T R now (play_picked_move T s)) =
              tree (play_picked_move T s) @ [ClearSubtrees]"
    with p eq show ?thesis
      by (intro exI [of _ pre] exI [of _ c] exI [of _ "[ClearSubtrees]"]) simp
  qed
qed

text \<open>A pass through the body sets the flag only for a root that went to
  \<^verbatim>\<open>MaybeQueueInference\<close>, and then leaves the loop.\<close>

lemma SelectLeaves_body_arming:
  assumes "SelectLeaves_body T R cache s infs nq = (ex, nq', s', infs')"
    and "\<not> inject_noise_before_next_read s" and "inject_noise_before_next_read s'"
  shows "ex = Break \<and> \<not> fastplay s \<and>
         (\<exists>lf e. tree_SelectLeaf T (tree s) (allow_pass (options s)) = Some lf \<and>
            tree s' = tree s @ [SelectLeaf (allow_pass (options s)), e] \<and>
            tree_root T (tree s') = lf \<and>
            ((\<exists>p v. e = IncorporateResults lf p v) \<or>
             (e = AddVirtualLoss lf \<and> (\<exists>i. infs' = infs @ [i] \<and> leaf i = lf))))"
  using assms(1)
proof (cases rule: SelectLeaves_body_cases)
  case none
  with assms(2,3) show ?thesis by (simp add: call_tree_def)
next
  case (terminal lf v)
  with assms(2,3) show ?thesis by (simp add: call_tree_def)
next
  case (queue lf q s2)
  let ?s1 = "call_tree (SelectLeaf (allow_pass (options s))) s"
  from MaybeQueueInference_frame [OF queue(3)]
  have f: "fastplay s2 = fastplay s" "inject_noise_before_next_read s2 = inject_noise_before_next_read s"
    by (simp_all add: call_tree_def)
  from assms(2,3) queue(6) f have r: "lf = tree_root T (tree s2)" "\<not> fastplay s"
    by auto
  have ts: "tree s' = tree s2" using queue(6) by simp
  from MaybeQueueInference_cases [OF queue(3)]
  have "\<exists>e. tree s2 = tree s @ [SelectLeaf (allow_pass (options s)), e] \<and>
          ((\<exists>p v. e = IncorporateResults lf p v) \<or>
           (e = AddVirtualLoss lf \<and> (\<exists>i. infs' = infs @ [i] \<and> leaf i = lf)))"
    by (auto simp: call_tree_def)
  with r queue(1,5) ts show ?thesis by auto
qed

lemma armed_root_known:
  assumes "tree_SelectLeaf T h ap = Some lf" and "tree_root T (h @ [SelectLeaf ap, e]) = lf"
    and "(\<exists>p v. e = IncorporateResults lf p v) \<or>
         (e = AddVirtualLoss lf \<and> (\<exists>i. infs' = infs @ [i] \<and> leaf i = lf))"
  shows "root_expanded T (h @ [SelectLeaf ap, e]) \<or> root_pending T (h @ [SelectLeaf ap, e]) infs'"
  using assms(3)
proof
  assume "\<exists>p v. e = IncorporateResults lf p v"
  then obtain p v where "e = IncorporateResults lf p v" by blast
  with assms(1,2) have "root_expanded T (h @ [SelectLeaf ap, e])"
    unfolding root_expanded_def
    by (intro exI [of _ h] exI [of _ ap] exI [of _ e] exI [of _ "[]"] exI [of _ lf]
          exI [of _ p] exI [of _ v]) simp
  then show ?thesis ..
next
  assume "e = AddVirtualLoss lf \<and> (\<exists>i. infs' = infs @ [i] \<and> leaf i = lf)"
  with assms(1,2) have "root_pending T (h @ [SelectLeaf ap, e]) infs'"
    unfolding root_pending_def
    by (intro exI [of _ h] exI [of _ ap] exI [of _ "[]"] exI [of _ lf]) auto
  then show ?thesis ..
qed

lemma SelectLeaves_loop_arming:
  assumes "SelectLeaves_loop fuel T R cache s infs nq = Some (n, s', infs')"
    and "\<not> inject_noise_before_next_read s" and "inject_noise_before_next_read s'"
  shows "\<not> fastplay s \<and> (root_expanded T (tree s') \<or> root_pending T (tree s') infs') \<and>
         (no_root_leaf_after_noise T \<longrightarrow> injections (current_move (tree s')) = 0)"
  using assms(1,2)
proof (induction fuel arbitrary: s infs nq)
  case 0
  then show ?case by simp
next
  case (Suc fuel)
  obtain ex nq1 s1 infs1 where b: "SelectLeaves_body T R cache s infs nq = (ex, nq1, s1, infs1)"
    by (cases "SelectLeaves_body T R cache s infs nq") auto
  from SelectLeaves_body_effect [OF b] have fr: "search_frame s s1" by blast
  show ?case
  proof (cases "inject_noise_before_next_read s1")
    case True
    from SelectLeaves_body_arming [OF b Suc.prems(2) True] obtain lf e where a:
      "ex = Break" "\<not> fastplay s"
      "tree_SelectLeaf T (tree s) (allow_pass (options s)) = Some lf"
      "tree s1 = tree s @ [SelectLeaf (allow_pass (options s)), e]"
      "tree_root T (tree s1) = lf"
      "(\<exists>p v. e = IncorporateResults lf p v) \<or>
       (e = AddVirtualLoss lf \<and> (\<exists>i. infs1 = infs @ [i] \<and> leaf i = lf))"
      by blast
    from Suc.prems(1) b a(1) have res: "s' = s1" "infs' = infs1" by simp_all
    have k: "root_expanded T (tree s1) \<or> root_pending T (tree s1) infs1"
      using armed_root_known [OF a(3) a(5) [unfolded a(4)] a(6)] by (simp add: a(4))
    have "injections (current_move (tree s1)) = 0" if H: "no_root_leaf_after_noise T"
    proof -
      have e': "e = AddVirtualLoss lf \<or> (\<exists>p v. e = IncorporateResults lf p v)"
        using a(6) by blast
      have "\<not> 0 < injections (current_move (tree s))"
        using H [unfolded no_root_leaf_after_noise_def, rule_format,
                 of "tree s" "allow_pass (options s)" lf e] a(3) a(5) e'
        by (auto simp: a(4))
      moreover have "\<forall>c \<in> set [SelectLeaf (allow_pass (options s)), e]. \<not> is_PlayMove c"
        "injections [SelectLeaf (allow_pass (options s)), e] = 0"
        using e' by (auto simp: injections_def)
      ultimately show ?thesis
        by (simp add: a(4) current_move_append injections_append)
    qed
    with a(2) k res show ?thesis by simp
  next
    case False
    with Suc.prems(1) b assms(3) have
      "SelectLeaves_loop fuel T R cache s1 infs1 nq1 = Some (n, s', infs')"
      by (cases ex) (auto split: if_splits)
    from Suc.IH [OF this False] fr show ?thesis by (simp add: search_frame_def)
  qed
qed

lemma inject_pending_noise_effect:
  "\<not> inject_noise_before_next_read (inject_pending_noise R s) \<and>
   search_frame s (inject_pending_noise R s) \<and>
   (if inject_noise_before_next_read s
    then \<exists>noise mix. tree (inject_pending_noise R s) = tree s @ [InjectNoise noise mix]
    else tree (inject_pending_noise R s) = tree s)"
  using InjectNoise_effect [of R "s\<lparr>inject_noise_before_next_read := False\<rparr>"]
  by (auto simp: inject_pending_noise_def search_frame_def)

lemma noise_inv_after_search:
  assumes inv: "noise_inv T s"
    and sl: "SelectLeaves fuel T R cache s [] = Some (n, s1, infs)"
  shows "(inject_noise_before_next_read s1 \<longrightarrow> \<not> fastplay s1) \<and>
         noise_after_expansion T (tree s1) \<and>
         (inject_noise_before_next_read s1 \<longrightarrow>
            root_expanded T (tree s1) \<or> root_pending T (tree s1) infs) \<and>
         (no_root_leaf_after_noise T \<longrightarrow>
            noise_once_per_move (tree s1) \<and>
            (inject_noise_before_next_read s1 \<longrightarrow> injections (current_move (tree s1)) = 0))"
proof -
  let ?s0 = "inject_pending_noise R s"
  from inject_pending_noise_effect [of R s]
  have n0: "\<not> inject_noise_before_next_read ?s0" and f0: "search_frame s ?s0"
    and t0: "if inject_noise_before_next_read s
             then \<exists>noise mix. tree ?s0 = tree s @ [InjectNoise noise mix]
             else tree ?s0 = tree s"
    by blast+
  from sl have lp: "SelectLeaves_loop fuel T R cache ?s0 [] 0 = Some (n, s1, infs)"
    by (simp add: SelectLeaves_def)
  from SelectLeaves_loop_effect [OF lp] obtain ev where
    ev: "tree s1 = tree ?s0 @ ev" "quiet ev" "search_frame ?s0 s1"
    by blast
  have qn: "\<forall>c \<in> set ev. \<not> is_InjectNoise c" using ev(2) by (simp add: quiet_def)
  \<comment> \<open>the state after the step before the loop\<close>
  have a0: "noise_after_expansion T (tree ?s0)"
  proof (cases "inject_noise_before_next_read s")
    case False
    with t0 inv show ?thesis by (simp add: noise_inv_def)
  next
    case True
    with t0 obtain noise mix where t: "tree ?s0 = tree s @ [InjectNoise noise mix]" by auto
    from inv True have "noise_after_expansion T (tree s)"
      "(\<forall>c \<in> set (tree s). \<not> is_PlayMove c) \<Longrightarrow> root_expanded T (tree s)"
      by (simp_all add: noise_inv_def)
    then show ?thesis unfolding t by (rule noise_after_expansion_noise)
  qed
  have b0: "noise_once_per_move (tree ?s0)" if H: "no_root_leaf_after_noise T"
  proof (cases "inject_noise_before_next_read s")
    case False
    with t0 inv H show ?thesis by (simp add: noise_inv_def)
  next
    case True
    with t0 obtain noise mix where t: "tree ?s0 = tree s @ [InjectNoise noise mix]" by auto
    from inv True H have "noise_once_per_move (tree s)" "injections (current_move (tree s)) = 0"
      by (simp_all add: noise_inv_def)
    then show ?thesis unfolding t by (intro noise_once_per_move_snoc) simp_all
  qed
  \<comment> \<open>the loop\<close>
  have a1: "noise_after_expansion T (tree s1)"
    unfolding ev(1) using a0 qn by (rule noise_after_expansion_append)
  have b1: "noise_once_per_move (tree s1)" if "no_root_leaf_after_noise T"
    unfolding ev(1) using b0 [OF that] qn by (rule noise_once_per_move_append)
  have c1: "\<not> fastplay s1 \<and> (root_expanded T (tree s1) \<or> root_pending T (tree s1) infs) \<and>
            (no_root_leaf_after_noise T \<longrightarrow> injections (current_move (tree s1)) = 0)"
    if "inject_noise_before_next_read s1"
    using SelectLeaves_loop_arming [OF lp n0 that] ev(3) by (simp add: search_frame_def)
  from a1 b1 c1 show ?thesis by blast
qed

lemma noise_inv_cycle:
  assumes inv: "noise_inv T s" and cy: "game_cycle T R ci s = Some s'"
  shows "noise_inv T s'"
  using cy
proof (cases rule: game_cycle_cases)
  case (1 n s1 infs s2 played)
  note mid = noise_inv_after_search [OF inv 1(1)]
  from SelectLeaves_effect [OF 1(1)] have len: "n = int (length infs)" by auto
  \<comment> \<open>after \<^verbatim>\<open>ProcessInferences\<close>\<close>
  have "\<exists>ev2. tree s2 = tree s1 @ ev2 \<and> quiet ev2 \<and>
          (\<forall>i \<in> set infs. \<exists>p v. IncorporateResults (leaf i) p v \<in> set ev2)"
  proof (cases "n > 0")
    case False
    with len have "infs = []" by simp
    with False 1(2) show ?thesis by (intro exI [of _ "[]"]) (simp add: quiet_def)
  next
    case True
    from incorporate_all_tree [of "run_model (ci_model ci) infs" s1] obtain ev2 where e:
      "tree (incorporate_all (run_model (ci_model ci) infs) s1) = tree s1 @ ev2" "quiet ev2"
      "\<forall>i \<in> set (run_model (ci_model ci) infs).
         IncorporateResults (leaf i) (policy (inf_output i)) (out_value (inf_output i)) \<in> set ev2"
      by blast
    have "\<exists>p v. IncorporateResults (leaf i) p v \<in> set ev2" if "i \<in> set infs" for i
    proof -
      from that have "i\<lparr>inf_output := ci_model ci i\<rparr> \<in> set (run_model (ci_model ci) infs)"
        by (simp add: run_model_def)
      from e(3) [rule_format, OF this] show ?thesis by auto
    qed
    with e True 1(2) show ?thesis
      by (intro exI [of _ ev2]) (simp add: ProcessInferences_tree)
  qed
  then obtain ev2 where e2: "tree s2 = tree s1 @ ev2" "quiet ev2"
    "\<forall>i \<in> set infs. \<exists>p v. IncorporateResults (leaf i) p v \<in> set ev2"
    by blast
  have f2: "fastplay s2 = fastplay s1"
    "inject_noise_before_next_read s2 = inject_noise_before_next_read s1"
    by (simp_all add: 1(2) ProcessInferences_frame)
  have q2: "\<forall>c \<in> set ev2. \<not> is_InjectNoise c" "\<forall>c \<in> set ev2. \<not> is_PlayMove c"
    using e2(2) by (simp_all add: quiet_def)
  have i2: "noise_inv T s2"
    unfolding noise_inv_def
  proof (intro conjI impI)
    assume "inject_noise_before_next_read s2"
    with mid f2 show "\<not> fastplay s2" by simp
  next
    from mid have "noise_after_expansion T (tree s1)" by simp
    then show "noise_after_expansion T (tree s2)"
      unfolding e2(1) using q2(1) by (rule noise_after_expansion_append)
  next
    assume "inject_noise_before_next_read s2 \<and> (\<forall>c \<in> set (tree s2). \<not> is_PlayMove c)"
    with mid f2 have "root_expanded T (tree s1) \<or> root_pending T (tree s1) infs" by simp
    then show "root_expanded T (tree s2)"
      unfolding e2(1)
      using root_expanded_append [of T "tree s1" ev2] root_pending_processed [OF _ e2(3)]
      by blast
  next
    assume "no_root_leaf_after_noise T"
    with mid have "noise_once_per_move (tree s1)" by simp
    then show "noise_once_per_move (tree s2)"
      unfolding e2(1) using q2(1) by (rule noise_once_per_move_append)
  next
    assume "no_root_leaf_after_noise T" "inject_noise_before_next_read s2"
    with mid f2 have "injections (current_move (tree s1)) = 0" by simp
    then show "injections (current_move (tree s2)) = 0"
      by (simp add: e2(1) current_move_append [OF q2(2)] injections_append
            injections_quiet [OF e2(2)])
  qed
  \<comment> \<open>after \<^verbatim>\<open>MaybePlayMove\<close>\<close>
  from 1(3) show ?thesis
  proof (cases rule: MaybePlayMove_cases)
    case wait
    with i2 show ?thesis by simp
  next
    case resign
    with i2 show ?thesis by (simp add: noise_inv_def)
  next
    case (over m)
    then have nr: "\<not> root_N T s2 < target_readouts s2" "\<not> ShouldResign T s2"
      by simp_all
    from MaybePlayMove_played_tree [OF 1(3) nr] obtain pre c post where t:
      "tree s' = tree s2 @ pre @ PlayMove c # post" "\<forall>x \<in> set pre. \<not> is_InjectNoise x"
      "\<forall>x \<in> set post. \<not> is_InjectNoise x \<and> \<not> is_PlayMove x"
      by blast
    have cm: "current_move (tree s') = post"
      using current_move_PlayMove [of post "tree s2 @ pre" c] t(3) by (simp add: t(1))
    have qa: "\<forall>x \<in> set (pre @ PlayMove c # post). \<not> is_InjectNoise x" using t(2,3) by auto
    show ?thesis
      unfolding noise_inv_def
    proof (intro conjI impI)
      assume "inject_noise_before_next_read s'"
      with i2 over show "\<not> fastplay s'" by (simp add: noise_inv_def)
    next
      from i2 have "noise_after_expansion T (tree s2)" by (simp add: noise_inv_def)
      from noise_after_expansion_append [OF this qa] show "noise_after_expansion T (tree s')"
        by (simp add: t(1))
    next
      assume "inject_noise_before_next_read s' \<and> (\<forall>c \<in> set (tree s'). \<not> is_PlayMove c)"
      then show "root_expanded T (tree s')" by (simp add: t(1))
    next
      assume "no_root_leaf_after_noise T"
      with i2 have "noise_once_per_move (tree s2)" by (simp add: noise_inv_def)
      from noise_once_per_move_append [OF this qa] show "noise_once_per_move (tree s')"
        by (simp add: t(1))
    next
      show "injections (current_move (tree s')) = 0"
        using t(3) by (simp add: cm injections_none)
    qed
  next
    case (live m)
    then have nr: "\<not> root_N T s2 < target_readouts s2" "\<not> ShouldResign T s2"
      by simp_all
    from MaybePlayMove_played_tree [OF 1(3) nr] obtain pre c post where t:
      "tree s' = tree s2 @ pre @ PlayMove c # post" "\<forall>x \<in> set pre. \<not> is_InjectNoise x"
      "\<forall>x \<in> set post. \<not> is_InjectNoise x \<and> \<not> is_PlayMove x"
      by blast
    have cm: "current_move (tree s') = post"
      using current_move_PlayMove [of post "tree s2 @ pre" c] t(3) by (simp add: t(1))
    have qa: "\<forall>x \<in> set (pre @ PlayMove c # post). \<not> is_InjectNoise x" using t(2,3) by auto
    show ?thesis
      unfolding noise_inv_def
    proof (intro conjI impI)
      assume "inject_noise_before_next_read s'"
      with live show "\<not> fastplay s'" by simp
    next
      from i2 have "noise_after_expansion T (tree s2)" by (simp add: noise_inv_def)
      from noise_after_expansion_append [OF this qa] show "noise_after_expansion T (tree s')"
        by (simp add: t(1))
    next
      assume "inject_noise_before_next_read s' \<and> (\<forall>c \<in> set (tree s'). \<not> is_PlayMove c)"
      then show "root_expanded T (tree s')" by (simp add: t(1))
    next
      assume "no_root_leaf_after_noise T"
      with i2 have "noise_once_per_move (tree s2)" by (simp add: noise_inv_def)
      from noise_once_per_move_append [OF this qa] show "noise_once_per_move (tree s')"
        by (simp add: t(1))
    next
      show "injections (current_move (tree s')) = 0"
        using t(3) by (simp add: cm injections_none)
    qed
  qed
qed

lemma noise_inv_new:
  "noise_inv T (new_SelfplayGame R opts (new_Game b w gopts) [] rnd0 now)"
  by (simp add: noise_inv_def noise_after_expansion_def noise_once_per_move_Nil
        new_SelfplayGame_def split: prod.splits)

lemma demo_tree_no_root_leaf_after_noise: "no_root_leaf_after_noise demo_tree"
proof -
  have "h \<noteq> []" if "0 < injections (current_move h)" for h
    using that by (auto simp: injections_def current_move_def)
  then show ?thesis
    by (auto simp: no_root_leaf_after_noise_def demo_tree_def)
qed

text \<open>Noise is injected a second time during a move only after the root was selected as
  a leaf again.\<close>

lemma split_before_appended:
  assumes "h @ ev = xs @ x # ys" and "x \<notin> set ev"
  shows "\<exists>ys'. h = xs @ x # ys' \<and> ys = ys' @ ev"
proof -
  from assms(1) obtain us where
    "(h = xs @ us \<and> us @ ev = x # ys) \<or> (h @ us = xs \<and> ev = us @ x # ys)"
    by (auto simp: append_eq_append_conv2)
  then show ?thesis
  proof
    assume a: "h = xs @ us \<and> us @ ev = x # ys"
    show ?thesis
    proof (cases us)
      case Nil
      with a assms(2) show ?thesis by auto
    next
      case (Cons u us')
      with a show ?thesis by auto
    qed
  next
    assume "h @ us = xs \<and> ev = us @ x # ys"
    with assms(2) show ?thesis by auto
  qed
qed

lemma root_selected_append: "root_selected T pre mid \<Longrightarrow> root_selected T pre (mid @ ev)"
  unfolding root_selected_def
  by (elim exE conjE) (rule_tac x = a in exI, rule_tac x = ap in exI, rule_tac x = e in exI,
      rule_tac x = "b @ ev" in exI, rule_tac x = r in exI, simp)

lemma root_selected_between_noise_append:
  assumes "root_selected_between_noise T h" and "\<forall>c \<in> set ev. \<not> is_InjectNoise c"
  shows "root_selected_between_noise T (h @ ev)"
  unfolding root_selected_between_noise_def
proof (intro allI impI, elim conjE)
  fix h1 noise1 mix1 mid noise2 mix2 h2
  assume eq: "h @ ev = h1 @ InjectNoise noise1 mix1 # mid @ InjectNoise noise2 mix2 # h2"
    and np: "\<forall>c \<in> set mid. \<not> is_PlayMove c"
  from eq have eq': "h @ ev = (h1 @ InjectNoise noise1 mix1 # mid) @ InjectNoise noise2 mix2 # h2"
    by simp
  from assms(2) have "InjectNoise noise2 mix2 \<notin> set ev" by auto
  from split_before_appended [OF eq' this]
  obtain ys where "h = (h1 @ InjectNoise noise1 mix1 # mid) @ InjectNoise noise2 mix2 # ys"
    by (elim exE conjE)
  then have "h = h1 @ InjectNoise noise1 mix1 # mid @ InjectNoise noise2 mix2 # ys" by simp
  with assms(1) np show "root_selected T (h1 @ [InjectNoise noise1 mix1]) mid"
    unfolding root_selected_between_noise_def by blast
qed

lemma root_selected_between_noise_noise:
  assumes "root_selected_between_noise T h" and "root_selected_since_noise T h"
  shows "root_selected_between_noise T (h @ [InjectNoise noise mix])"
  unfolding root_selected_between_noise_def
proof (intro allI impI, elim conjE)
  fix h1 noise1 mix1 mid noise2 mix2 h2
  assume eq: "h @ [InjectNoise noise mix] =
                h1 @ InjectNoise noise1 mix1 # mid @ InjectNoise noise2 mix2 # h2"
    and np: "\<forall>c \<in> set mid. \<not> is_PlayMove c"
  show "root_selected T (h1 @ [InjectNoise noise1 mix1]) mid"
  proof (cases h2 rule: rev_cases)
    case Nil
    with eq have "h @ [InjectNoise noise mix] =
                    (h1 @ InjectNoise noise1 mix1 # mid) @ [InjectNoise noise2 mix2]"
      by simp
    then have "h = h1 @ InjectNoise noise1 mix1 # mid" by (simp only: append1_eq_conv)
    with assms(2) np show ?thesis unfolding root_selected_since_noise_def by blast
  next
    case (snoc h2' x)
    with eq have "h @ [InjectNoise noise mix] =
                    (h1 @ InjectNoise noise1 mix1 # mid @ InjectNoise noise2 mix2 # h2') @ [x]"
      by simp
    then have "h = h1 @ InjectNoise noise1 mix1 # mid @ InjectNoise noise2 mix2 # h2'"
      by (simp only: append1_eq_conv)
    with assms(1) np show ?thesis unfolding root_selected_between_noise_def by blast
  qed
qed

lemma root_selected_since_noise_append:
  assumes "root_selected_since_noise T h" and "\<forall>c \<in> set ev. \<not> is_InjectNoise c"
  shows "root_selected_since_noise T (h @ ev)"
  unfolding root_selected_since_noise_def
proof (intro allI impI, elim conjE)
  fix h1 noise1 mix1 mid
  assume eq: "h @ ev = h1 @ InjectNoise noise1 mix1 # mid"
    and np: "\<forall>c \<in> set mid. \<not> is_PlayMove c"
  from assms(2) have "InjectNoise noise1 mix1 \<notin> set ev" by auto
  from split_before_appended [OF eq this]
  obtain ys where ys: "h = h1 @ InjectNoise noise1 mix1 # ys" "mid = ys @ ev"
    by (elim exE conjE)
  from np ys(2) have "\<forall>c \<in> set ys. \<not> is_PlayMove c" by simp
  with assms(1) ys(1) have "root_selected T (h1 @ [InjectNoise noise1 mix1]) ys"
    unfolding root_selected_since_noise_def by blast
  then show "root_selected T (h1 @ [InjectNoise noise1 mix1]) mid"
    unfolding ys(2) by (rule root_selected_append)
qed

lemma root_selected_since_noise_played:
  assumes "\<forall>c \<in> set ev. \<not> is_InjectNoise c" and "\<exists>c \<in> set ev. is_PlayMove c"
  shows "root_selected_since_noise T (h @ ev)"
  unfolding root_selected_since_noise_def
proof (intro allI impI, elim conjE)
  fix h1 noise1 mix1 mid
  assume eq: "h @ ev = h1 @ InjectNoise noise1 mix1 # mid"
    and np: "\<forall>c \<in> set mid. \<not> is_PlayMove c"
  from assms(1) have "InjectNoise noise1 mix1 \<notin> set ev" by auto
  from split_before_appended [OF eq this]
  obtain ys where "mid = ys @ ev"
    by (elim exE conjE)
  with np assms(2) have False by auto
  then show "root_selected T (h1 @ [InjectNoise noise1 mix1]) mid" ..
qed

lemma root_selected_since_noise_root:
  assumes "tree_SelectLeaf T h ap = Some lf" and "tree_root T (h @ [SelectLeaf ap, e]) = lf"
    and "e = AddVirtualLoss lf \<or> (\<exists>p v. e = IncorporateResults lf p v)"
  shows "root_selected_since_noise T (h @ [SelectLeaf ap, e])"
  unfolding root_selected_since_noise_def
proof (intro allI impI, elim conjE)
  fix h1 noise1 mix1 mid
  assume eq: "h @ [SelectLeaf ap, e] = h1 @ InjectNoise noise1 mix1 # mid"
  from assms(3) have "InjectNoise noise1 mix1 \<notin> set [SelectLeaf ap, e]" by auto
  from split_before_appended [OF eq this]
  obtain ys where ys: "h = h1 @ InjectNoise noise1 mix1 # ys" "mid = ys @ [SelectLeaf ap, e]"
    by (elim exE conjE)
  from assms ys show "root_selected T (h1 @ [InjectNoise noise1 mix1]) mid"
    unfolding root_selected_def
    by (intro exI [of _ ys] exI [of _ ap] exI [of _ e] exI [of _ "[]"] exI [of _ lf]) simp
qed

lemma SelectLeaves_loop_rearming:
  assumes "SelectLeaves_loop fuel T R cache s infs nq = Some (n, s', infs')"
    and "\<not> inject_noise_before_next_read s" and "inject_noise_before_next_read s'"
  shows "root_selected_since_noise T (tree s')"
  using assms(1,2)
proof (induction fuel arbitrary: s infs nq)
  case 0
  then show ?case by simp
next
  case (Suc fuel)
  obtain ex nq1 s1 infs1 where b: "SelectLeaves_body T R cache s infs nq = (ex, nq1, s1, infs1)"
    by (cases "SelectLeaves_body T R cache s infs nq") auto
  show ?case
  proof (cases "inject_noise_before_next_read s1")
    case True
    from SelectLeaves_body_arming [OF b Suc.prems(2) True] obtain lf e where a:
      "ex = Break"
      "tree_SelectLeaf T (tree s) (allow_pass (options s)) = Some lf"
      "tree s1 = tree s @ [SelectLeaf (allow_pass (options s)), e]"
      "tree_root T (tree s1) = lf"
      "(\<exists>p v. e = IncorporateResults lf p v) \<or>
       (e = AddVirtualLoss lf \<and> (\<exists>i. infs1 = infs @ [i] \<and> leaf i = lf))"
      by blast
    from Suc.prems(1) b a(1) have res: "s' = s1" by simp
    from a(5) have e': "e = AddVirtualLoss lf \<or> (\<exists>p v. e = IncorporateResults lf p v)" by blast
    from root_selected_since_noise_root [OF a(2) a(4) [unfolded a(3)] e']
    show ?thesis by (simp add: res a(3))
  next
    case False
    with Suc.prems(1) b assms(3) have
      "SelectLeaves_loop fuel T R cache s1 infs1 nq1 = Some (n, s', infs')"
      by (cases ex) (auto split: if_splits)
    from Suc.IH [OF this False] show ?thesis .
  qed
qed

lemma rearm_inv_cycle:
  assumes inv: "rearm_inv T s" and cy: "game_cycle T R ci s = Some s'"
  shows "rearm_inv T s'"
  using cy
proof (cases rule: game_cycle_cases)
  case (1 n s1 infs s2 played)
  let ?s0 = "inject_pending_noise R s"
  from inject_pending_noise_effect [of R s]
  have n0: "\<not> inject_noise_before_next_read ?s0"
    and t0: "if inject_noise_before_next_read s
             then \<exists>noise mix. tree ?s0 = tree s @ [InjectNoise noise mix]
             else tree ?s0 = tree s"
    by blast+
  from 1(1) have lp: "SelectLeaves_loop (ci_fuel ci) T R (ci_cache ci) ?s0 [] 0 = Some (n, s1, infs)"
    by (simp add: SelectLeaves_def)
  from SelectLeaves_loop_effect [OF lp] obtain ev where
    ev: "tree s1 = tree ?s0 @ ev" "quiet ev"
    by blast
  have qn: "\<forall>c \<in> set ev. \<not> is_InjectNoise c" using ev(2) by (simp add: quiet_def)
  have p0: "root_selected_between_noise T (tree ?s0)"
  proof (cases "inject_noise_before_next_read s")
    case False
    with t0 inv show ?thesis by (simp add: rearm_inv_def)
  next
    case True
    with t0 obtain noise mix where t: "tree ?s0 = tree s @ [InjectNoise noise mix]" by auto
    from inv True have "root_selected_between_noise T (tree s)"
      "root_selected_since_noise T (tree s)"
      by (simp_all add: rearm_inv_def)
    then show ?thesis unfolding t by (rule root_selected_between_noise_noise)
  qed
  have p1: "root_selected_between_noise T (tree s1)"
    unfolding ev(1) using p0 qn by (rule root_selected_between_noise_append)
  have q1: "root_selected_since_noise T (tree s1)" if "inject_noise_before_next_read s1"
    using lp n0 that by (rule SelectLeaves_loop_rearming)
  \<comment> \<open>after \<^verbatim>\<open>ProcessInferences\<close>\<close>
  have "\<exists>ev2. tree s2 = tree s1 @ ev2 \<and> quiet ev2"
  proof (cases "n > 0")
    case False
    with 1(2) show ?thesis by (intro exI [of _ "[]"]) (simp add: quiet_def)
  next
    case True
    from incorporate_all_tree [of "run_model (ci_model ci) infs" s1] obtain ev2 where
      "tree (incorporate_all (run_model (ci_model ci) infs) s1) = tree s1 @ ev2" "quiet ev2"
      by blast
    with True 1(2) show ?thesis
      by (intro exI [of _ ev2]) (simp add: ProcessInferences_tree)
  qed
  then obtain ev2 where e2: "tree s2 = tree s1 @ ev2" "quiet ev2" by blast
  have f2: "inject_noise_before_next_read s2 = inject_noise_before_next_read s1"
    by (simp add: 1(2) ProcessInferences_frame)
  have q2: "\<forall>c \<in> set ev2. \<not> is_InjectNoise c" using e2(2) by (simp add: quiet_def)
  have p2: "root_selected_between_noise T (tree s2)"
    unfolding e2(1) using p1 q2 by (rule root_selected_between_noise_append)
  have i2: "rearm_inv T s2"
    unfolding rearm_inv_def
  proof (intro conjI impI)
    show "root_selected_between_noise T (tree s2)" by (rule p2)
  next
    assume "inject_noise_before_next_read s2"
    with f2 have "root_selected_since_noise T (tree s1)" by (simp add: q1)
    then show "root_selected_since_noise T (tree s2)"
      unfolding e2(1) using q2 by (rule root_selected_since_noise_append)
  qed
  \<comment> \<open>after \<^verbatim>\<open>MaybePlayMove\<close>\<close>
  have played: "rearm_inv T s'"
    if nr: "\<not> root_N T s2 < target_readouts s2" "\<not> ShouldResign T s2"
  proof -
    from MaybePlayMove_played_tree [OF 1(3) nr] obtain pre c post where t:
      "tree s' = tree s2 @ pre @ PlayMove c # post" "\<forall>x \<in> set pre. \<not> is_InjectNoise x"
      "\<forall>x \<in> set post. \<not> is_InjectNoise x \<and> \<not> is_PlayMove x"
      by blast
    have qa: "\<forall>x \<in> set (pre @ PlayMove c # post). \<not> is_InjectNoise x" using t(2,3) by auto
    have pm: "\<exists>x \<in> set (pre @ PlayMove c # post). is_PlayMove x" by simp
    from root_selected_between_noise_append [OF p2 qa]
      root_selected_since_noise_played [OF qa pm, of T "tree s2"]
    show ?thesis by (simp add: rearm_inv_def t(1))
  qed
  from 1(3) show ?thesis
  proof (cases rule: MaybePlayMove_cases)
    case wait
    with i2 show ?thesis by simp
  next
    case resign
    with i2 show ?thesis by (simp add: rearm_inv_def)
  next
    case (over m)
    then show ?thesis by (intro played) simp_all
  next
    case (live m)
    then show ?thesis by (intro played) simp_all
  qed
qed

lemma rearm_inv_new:
  "rearm_inv T (new_SelfplayGame R opts (new_Game b w gopts) [] rnd0 now)"
  by (simp add: rearm_inv_def root_selected_between_noise_def root_selected_since_noise_def
        new_SelfplayGame_def split: prod.splits)

text \<open>
  Claim C2, as amended. In every state that a new game reaches between two cycles:
  \<^item> \<^verbatim>\<open>SelectLeaves\<close> clears \<^verbatim>\<open>inject_noise_before_next_read_\<close> before it reads, and
    injects noise once if the flag was set and not at all otherwise;
  \<^item> the flag is only set when the move is not a fast play, so noise is never injected
    during a fast play; and \<^verbatim>\<open>MaybePlayMove\<close>, when it plays a move and the game goes
    on, sets the flag exactly when the next move is not a fast play;
  \<^item> every \<^verbatim>\<open>InjectNoise\<close> made before the first move was played comes after the root
    was selected by \<^verbatim>\<open>SelectLeaves\<close> and expanded by \<^verbatim>\<open>IncorporateResults\<close>;
  \<^item> between two \<^verbatim>\<open>InjectNoise\<close> calls with no \<^verbatim>\<open>PlayMove\<close> between them,
    \<^verbatim>\<open>SelectLeaf\<close> has returned the root and the root went to
    \<^verbatim>\<open>MaybeQueueInference\<close>: noise is injected again during the same move only after
    the root was selected as a leaf again. So if the tree never returns the root as a leaf
    once noise has been injected during the search of the current move, every stretch of
    the call history without a \<^verbatim>\<open>PlayMove\<close> holds at most one \<^verbatim>\<open>InjectNoise\<close>.
\<close>

theorem noise_injection:
  assumes "play_cycles T R cycles (new_SelfplayGame R opts (new_Game b w gopts) [] rnd0 now) = Some s"
  shows "(\<forall>h1 noise1 mix1 mid noise2 mix2 h2.
            tree s = h1 @ InjectNoise noise1 mix1 # mid @ InjectNoise noise2 mix2 # h2 \<and>
            (\<forall>c \<in> set mid. \<not> is_PlayMove c)
              \<longrightarrow> root_selected T (h1 @ [InjectNoise noise1 mix1]) mid) \<and>
         (no_root_leaf_after_noise T \<longrightarrow>
           (\<forall>h1 seg h2. tree s = h1 @ seg @ h2 \<and> (\<forall>c \<in> set seg. \<not> is_PlayMove c)
              \<longrightarrow> injections seg \<le> 1)) \<and>
         (\<forall>h1 noise mix h2.
            tree s = h1 @ InjectNoise noise mix # h2 \<and> (\<forall>c \<in> set h1. \<not> is_PlayMove c)
              \<longrightarrow> root_expanded T h1) \<and>
         (inject_noise_before_next_read s \<longrightarrow> \<not> fastplay s) \<and>
         \<not> inject_noise_before_next_read (inject_pending_noise R s) \<and>
         (\<forall>fuel cache infs n s' infs'.
            SelectLeaves fuel T R cache s infs = Some (n, s', infs') \<longrightarrow>
              (\<exists>ev. tree s' = tree s @ ev \<and>
                    injections ev = (if inject_noise_before_next_read s then 1 else 0))) \<and>
         (\<forall>now' s'. MaybePlayMove T R now' s = (True, s') \<and> \<not> game_over (game s') \<longrightarrow>
            inject_noise_before_next_read s' = (\<not> fastplay s'))"
proof -
  have inv: "noise_inv T s"
    using noise_inv_new _ assms
  proof (rule play_cycles_invariant [where P = "noise_inv T"])
    fix ci s s'
    assume "noise_inv T s" "game_cycle T R ci s = Some s'"
    then show "noise_inv T s'" by (rule noise_inv_cycle)
  qed
  have rinv: "rearm_inv T s"
    using rearm_inv_new _ assms
  proof (rule play_cycles_invariant [where P = "rearm_inv T"])
    fix ci s s'
    assume "rearm_inv T s" "game_cycle T R ci s = Some s'"
    then show "rearm_inv T s'" by (rule rearm_inv_cycle)
  qed
  have sel: "\<exists>ev. tree s' = tree s @ ev \<and>
               injections ev = (if inject_noise_before_next_read s then 1 else 0)"
    if "SelectLeaves fuel T R cache s infs = Some (n, s', infs')" for fuel cache infs n s' infs'
  proof -
    from SelectLeaves_effect [OF that] obtain pre ev where e:
      "tree s' = tree s @ pre @ ev"
      "if inject_noise_before_next_read s
       then \<exists>noise. pre = [InjectNoise noise (noise_mix (options s))] else pre = []"
      "quiet ev"
      by blast
    from e(2) have "injections pre = (if inject_noise_before_next_read s then 1 else 0)"
      by (auto simp: injections_def split: if_splits)
    with e(1,3) show ?thesis
      by (intro exI [of _ "pre @ ev"]) (simp add: injections_append injections_quiet)
  qed
  have mpm: "inject_noise_before_next_read s' = (\<not> fastplay s')"
    if "MaybePlayMove T R now' s = (True, s')" "\<not> game_over (game s')" for now' s'
    using that(1)
  proof (cases rule: MaybePlayMove_cases)
    case (live m)
    then show ?thesis by simp
  qed (use that(2) in simp_all)
  from inv have i1: "inject_noise_before_next_read s \<longrightarrow> \<not> fastplay s"
    and i2: "noise_after_expansion T (tree s)"
    and i3: "no_root_leaf_after_noise T \<longrightarrow> noise_once_per_move (tree s)"
    by (simp_all add: noise_inv_def)
  from rinv have i0: "root_selected_between_noise T (tree s)" by (simp add: rearm_inv_def)
  show ?thesis
  proof (intro conjI)
    show "\<forall>h1 noise1 mix1 mid noise2 mix2 h2.
            tree s = h1 @ InjectNoise noise1 mix1 # mid @ InjectNoise noise2 mix2 # h2 \<and>
            (\<forall>c \<in> set mid. \<not> is_PlayMove c)
              \<longrightarrow> root_selected T (h1 @ [InjectNoise noise1 mix1]) mid"
      using i0 unfolding root_selected_between_noise_def .
    show "no_root_leaf_after_noise T \<longrightarrow>
           (\<forall>h1 seg h2. tree s = h1 @ seg @ h2 \<and> (\<forall>c \<in> set seg. \<not> is_PlayMove c)
              \<longrightarrow> injections seg \<le> 1)"
      using i3 unfolding noise_once_per_move_def .
    show "\<forall>h1 noise mix h2.
            tree s = h1 @ InjectNoise noise mix # h2 \<and> (\<forall>c \<in> set h1. \<not> is_PlayMove c)
              \<longrightarrow> root_expanded T h1"
      using i2 unfolding noise_after_expansion_def .
    show "inject_noise_before_next_read s \<longrightarrow> \<not> fastplay s" by (rule i1)
    show "\<not> inject_noise_before_next_read (inject_pending_noise R s)"
      using inject_pending_noise_effect [of R s] by (elim conjE)
    show "\<forall>fuel cache infs n s' infs'.
            SelectLeaves fuel T R cache s infs = Some (n, s', infs') \<longrightarrow>
              (\<exists>ev. tree s' = tree s @ ev \<and>
                    injections ev = (if inject_noise_before_next_read s then 1 else 0))"
      using sel by (intro allI impI)
    show "\<forall>now' s'. MaybePlayMove T R now' s = (True, s') \<and> \<not> game_over (game s') \<longrightarrow>
            inject_noise_before_next_read s' = (\<not> fastplay s')"
      using mpm by (intro allI impI) (elim conjE)
  qed
qed

theorem noise_injection_witness:
  "play_cycles demo_tree_fresh_root demo_random
     [demo_cycle, demo_cycle, demo_cycle, demo_cycle] demo_game \<noteq> None \<and>
   tree (the (play_cycles demo_tree_fresh_root demo_random
                [demo_cycle, demo_cycle, demo_cycle, demo_cycle] demo_game)) =
     [SelectLeaf True, AddVirtualLoss 0, IncorporateResults 0 [] 0, RevertVirtualLoss 0,
      InjectNoise [] (1 / 4), SelectLeaf True, AddVirtualLoss 5, SelectLeaf True, AddVirtualLoss 7,
      IncorporateResults 5 [] 0, RevertVirtualLoss 5, IncorporateResults 7 [] 0,
      RevertVirtualLoss 7, PickMove, PlayMove (kPoint 0)] @
     InjectNoise [] (1 / 4) #
     [SelectLeaf True, AddVirtualLoss 0, IncorporateResults 0 [] 0, RevertVirtualLoss 0] @
     InjectNoise [] (1 / 4) #
     [SelectLeaf True, AddVirtualLoss 21, SelectLeaf True, AddVirtualLoss 23,
      IncorporateResults 21 [] 0, RevertVirtualLoss 21, IncorporateResults 23 [] 0,
      RevertVirtualLoss 23, PickMove, PlayMove (kPoint 1)] \<and>
   root_selected demo_tree_fresh_root
     ([SelectLeaf True, AddVirtualLoss 0, IncorporateResults 0 [] 0, RevertVirtualLoss 0,
       InjectNoise [] (1 / 4), SelectLeaf True, AddVirtualLoss 5, SelectLeaf True, AddVirtualLoss 7,
       IncorporateResults 5 [] 0, RevertVirtualLoss 5, IncorporateResults 7 [] 0,
       RevertVirtualLoss 7, PickMove, PlayMove (kPoint 0)] @ [InjectNoise [] (1 / 4)])
     [SelectLeaf True, AddVirtualLoss 0, IncorporateResults 0 [] 0, RevertVirtualLoss 0] \<and>
   no_root_leaf_after_noise demo_tree \<and>
   play_cycles demo_tree demo_random [demo_cycle, demo_cycle, demo_cycle] demo_game \<noteq> None \<and>
   tree (the (play_cycles demo_tree demo_random [demo_cycle, demo_cycle, demo_cycle] demo_game)) =
     [] @
     [SelectLeaf True, AddVirtualLoss 0, IncorporateResults 0 [] 0, RevertVirtualLoss 0,
      InjectNoise [] (1 / 4), SelectLeaf True, AddVirtualLoss 5, SelectLeaf True, AddVirtualLoss 7,
      IncorporateResults 5 [] 0, RevertVirtualLoss 5, IncorporateResults 7 [] 0,
      RevertVirtualLoss 7, PickMove] @
     [PlayMove (kPoint 0), InjectNoise [] (1 / 4), SelectLeaf True, AddVirtualLoss 16,
      SelectLeaf True, AddVirtualLoss 18, IncorporateResults 16 [] 0, RevertVirtualLoss 16,
      IncorporateResults 18 [] 0, RevertVirtualLoss 18] \<and>
   injections
     [SelectLeaf True, AddVirtualLoss 0, IncorporateResults 0 [] 0, RevertVirtualLoss 0,
      InjectNoise [] (1 / 4), SelectLeaf True, AddVirtualLoss 5, SelectLeaf True, AddVirtualLoss 7,
      IncorporateResults 5 [] 0, RevertVirtualLoss 5, IncorporateResults 7 [] 0,
      RevertVirtualLoss 7, PickMove] \<le> 1 \<and>
   root_expanded demo_tree
     [SelectLeaf True, AddVirtualLoss 0, IncorporateResults 0 [] 0, RevertVirtualLoss 0] \<and>
   play_cycles demo_tree demo_random [demo_cycle] demo_game \<noteq> None \<and>
   inject_noise_before_next_read (the (play_cycles demo_tree demo_random [demo_cycle] demo_game)) \<and>
   \<not> fastplay (the (play_cycles demo_tree demo_random [demo_cycle] demo_game)) \<and>
   \<not> inject_noise_before_next_read
       (inject_pending_noise demo_random
          (the (play_cycles demo_tree demo_random [demo_cycle] demo_game))) \<and>
   SelectLeaves 5 demo_tree demo_random null_cache
     (the (play_cycles demo_tree demo_random [demo_cycle] demo_game)) [] \<noteq> None \<and>
   (\<exists>ev. tree (fst (snd (the (SelectLeaves 5 demo_tree demo_random null_cache
                 (the (play_cycles demo_tree demo_random [demo_cycle] demo_game)) [])))) =
           tree (the (play_cycles demo_tree demo_random [demo_cycle] demo_game)) @ ev \<and>
         injections ev = 1) \<and>
   fst (MaybePlayMove demo_tree demo_random 7 demo_game_zero_readouts) \<and>
   \<not> game_over (game (snd (MaybePlayMove demo_tree demo_random 7 demo_game_zero_readouts))) \<and>
   inject_noise_before_next_read (snd (MaybePlayMove demo_tree demo_random 7 demo_game_zero_readouts))
     = (\<not> fastplay (snd (MaybePlayMove demo_tree demo_random 7 demo_game_zero_readouts)))"
proof -
  let ?run4 = "play_cycles demo_tree_fresh_root demo_random
                 [demo_cycle, demo_cycle, demo_cycle, demo_cycle] demo_game"
  let ?run3 = "play_cycles demo_tree demo_random [demo_cycle, demo_cycle, demo_cycle] demo_game"
  let ?run1 = "play_cycles demo_tree demo_random [demo_cycle] demo_game"
  let ?m0 = "[SelectLeaf True, AddVirtualLoss 0, IncorporateResults 0 [] 0, RevertVirtualLoss 0,
      InjectNoise [] (1 / 4), SelectLeaf True, AddVirtualLoss 5, SelectLeaf True, AddVirtualLoss 7,
      IncorporateResults 5 [] 0, RevertVirtualLoss 5, IncorporateResults 7 [] 0,
      RevertVirtualLoss 7, PickMove, PlayMove (kPoint 0)]"
  let ?mid = "[SelectLeaf True, AddVirtualLoss 0, IncorporateResults 0 [] 0, RevertVirtualLoss 0]"
  let ?m2 = "[SelectLeaf True, AddVirtualLoss 21, SelectLeaf True, AddVirtualLoss 23,
      IncorporateResults 21 [] 0, RevertVirtualLoss 21, IncorporateResults 23 [] 0,
      RevertVirtualLoss 23, PickMove, PlayMove (kPoint 1)]"
  let ?seg = "[SelectLeaf True, AddVirtualLoss 0, IncorporateResults 0 [] 0, RevertVirtualLoss 0,
      InjectNoise [] (1 / 4), SelectLeaf True, AddVirtualLoss 5, SelectLeaf True, AddVirtualLoss 7,
      IncorporateResults 5 [] 0, RevertVirtualLoss 5, IncorporateResults 7 [] 0,
      RevertVirtualLoss 7, PickMove]"
  let ?h2 = "[PlayMove (kPoint 0), InjectNoise [] (1 / 4), SelectLeaf True, AddVirtualLoss 16,
      SelectLeaf True, AddVirtualLoss 18, IncorporateResults 16 [] 0, RevertVirtualLoss 16,
      IncorporateResults 18 [] 0, RevertVirtualLoss 18]"
  let ?pre = "[SelectLeaf True, AddVirtualLoss 0, IncorporateResults 0 [] 0, RevertVirtualLoss 0]"
  let ?mpm = "MaybePlayMove demo_tree demo_random 7 demo_game_zero_readouts"
  have H: "no_root_leaf_after_noise demo_tree" by (rule demo_tree_no_root_leaf_after_noise)
  have ne4: "?run4 \<noteq> None" by code_simp
  have t4: "tree (the ?run4) =
              ?m0 @ InjectNoise [] (1 / 4) # ?mid @ InjectNoise [] (1 / 4) # ?m2"
    by code_simp
  have ne3: "?run3 \<noteq> None" by code_simp
  have t3: "tree (the ?run3) = [] @ ?seg @ ?h2" by code_simp
  have ne1: "?run1 \<noteq> None" by code_simp
  have a1: "inject_noise_before_next_read (the ?run1)" by code_simp
  have sl: "SelectLeaves 5 demo_tree demo_random null_cache (the ?run1) [] \<noteq> None" by code_simp
  have m: "fst ?mpm" "\<not> game_over (game (snd ?mpm))" by code_simp+
  from ne4 have r4: "?run4 = Some (the ?run4)" by simp
  from ne3 have r3: "?run3 = Some (the ?run3)" by simp
  from ne1 have r1: "?run1 = Some (the ?run1)" by simp
  have r0: "play_cycles demo_tree demo_random [] demo_game_zero_readouts
              = Some demo_game_zero_readouts"
    by simp
  note w4 = noise_injection [OF r4 [unfolded demo_game_def]]
  note w3 = noise_injection [OF r3 [unfolded demo_game_def]]
  note w1 = noise_injection [OF r1 [unfolded demo_game_def]]
  note w0 = noise_injection [OF r0 [unfolded demo_game_zero_readouts_def]]
  have np: "\<forall>c \<in> set ?seg. \<not> is_PlayMove c" "\<forall>c \<in> set ?pre. \<not> is_PlayMove c" by simp_all
  have c0: "root_selected demo_tree_fresh_root (?m0 @ [InjectNoise [] (1 / 4)]) ?mid"
  proof -
    from w4 have "\<forall>h1 noise1 mix1 mid noise2 mix2 h2.
            tree (the ?run4) = h1 @ InjectNoise noise1 mix1 # mid @ InjectNoise noise2 mix2 # h2 \<and>
            (\<forall>c \<in> set mid. \<not> is_PlayMove c)
              \<longrightarrow> root_selected demo_tree_fresh_root (h1 @ [InjectNoise noise1 mix1]) mid"
      unfolding demo_game_def [symmetric] by (elim conjE)
    from this [rule_format, of ?m0 "[]" "1 / 4" ?mid "[]" "1 / 4" ?m2, OF conjI [OF t4 np(2)]]
    show ?thesis .
  qed
  from w3 H t3 np(1) have c1: "injections ?seg \<le> 1"
    unfolding demo_game_def [symmetric] by blast
  have t3': "tree (the ?run3) = ?pre @ InjectNoise [] (1 / 4) # (drop 5 ?seg @ ?h2)"
    using t3 by simp
  from w3 t3' np(2) have c2: "root_expanded demo_tree ?pre"
    unfolding demo_game_def [symmetric] by blast
  from w1 a1 have c3: "\<not> fastplay (the ?run1)"
    unfolding demo_game_def [symmetric] by blast
  from w1 have c6: "\<not> inject_noise_before_next_read (inject_pending_noise demo_random (the ?run1))"
    unfolding demo_game_def [symmetric] by blast
  have "?mpm = (True, snd ?mpm)" using m(1) by (cases ?mpm) simp
  with w0 m(2) have c5: "inject_noise_before_next_read (snd ?mpm) = (\<not> fastplay (snd ?mpm))"
    unfolding demo_game_zero_readouts_def [symmetric] by blast
  let ?sel = "SelectLeaves 5 demo_tree demo_random null_cache (the ?run1) []"
  from sl have "?sel = Some (fst (the ?sel), fst (snd (the ?sel)), snd (snd (the ?sel)))"
    by simp
  with w1 a1 have c4: "\<exists>ev. tree (fst (snd (the ?sel))) = tree (the ?run1) @ ev \<and> injections ev = 1"
    unfolding demo_game_def [symmetric] by (metis (full_types))
  from ne4 t4 c0 H ne3 t3 c1 c2 ne1 a1 c3 c6 sl c4 m c5 show ?thesis by blast
qed

text \<open>
  Claim C2 says that noise is injected at most once per move and only after the root has
  been expanded. \<^verbatim>\<open>MaybePlayMove\<close> sets the flag for the next move without looking at
  the new root, and \<^verbatim>\<open>SelectLeaves\<close> sets it again when it selects the root as a
  leaf. On a tree whose root is a leaf after every move, the search of the second move of
  a game injects noise twice: once right after \<^verbatim>\<open>PlayMove\<close>, before the new root has
  been expanded (\<^verbatim>\<open>SelectLeaf\<close> returns that root next), and once more at the next
  call of \<^verbatim>\<open>SelectLeaves\<close>.
\<close>

theorem noise_twice_in_one_move_counterexample:
  "play_cycles demo_tree_fresh_root demo_random
     [demo_cycle, demo_cycle, demo_cycle, demo_cycle] demo_game \<noteq> None \<and>
   tree (the (play_cycles demo_tree_fresh_root demo_random
                [demo_cycle, demo_cycle, demo_cycle, demo_cycle] demo_game)) =
     [SelectLeaf True, AddVirtualLoss 0, IncorporateResults 0 [] 0, RevertVirtualLoss 0,
      InjectNoise [] (1 / 4), SelectLeaf True, AddVirtualLoss 5, SelectLeaf True, AddVirtualLoss 7,
      IncorporateResults 5 [] 0, RevertVirtualLoss 5, IncorporateResults 7 [] 0,
      RevertVirtualLoss 7, PickMove, PlayMove (kPoint 0)] @
     [InjectNoise [] (1 / 4), SelectLeaf True, AddVirtualLoss 0, IncorporateResults 0 [] 0,
      RevertVirtualLoss 0, InjectNoise [] (1 / 4), SelectLeaf True, AddVirtualLoss 21,
      SelectLeaf True, AddVirtualLoss 23, IncorporateResults 21 [] 0, RevertVirtualLoss 21,
      IncorporateResults 23 [] 0, RevertVirtualLoss 23, PickMove] @
     [PlayMove (kPoint 1)] \<and>
   filter is_PlayMove
     [InjectNoise [] (1 / 4), SelectLeaf True, AddVirtualLoss 0, IncorporateResults 0 [] 0,
      RevertVirtualLoss 0, InjectNoise [] (1 / 4), SelectLeaf True, AddVirtualLoss 21,
      SelectLeaf True, AddVirtualLoss 23, IncorporateResults 21 [] 0, RevertVirtualLoss 21,
      IncorporateResults 23 [] 0, RevertVirtualLoss 23, PickMove] = [] \<and>
   injections
     [InjectNoise [] (1 / 4), SelectLeaf True, AddVirtualLoss 0, IncorporateResults 0 [] 0,
      RevertVirtualLoss 0, InjectNoise [] (1 / 4), SelectLeaf True, AddVirtualLoss 21,
      SelectLeaf True, AddVirtualLoss 23, IncorporateResults 21 [] 0, RevertVirtualLoss 21,
      IncorporateResults 23 [] 0, RevertVirtualLoss 23, PickMove] = 2 \<and>
   tree_SelectLeaf demo_tree_fresh_root
     ([SelectLeaf True, AddVirtualLoss 0, IncorporateResults 0 [] 0, RevertVirtualLoss 0,
       InjectNoise [] (1 / 4), SelectLeaf True, AddVirtualLoss 5, SelectLeaf True, AddVirtualLoss 7,
       IncorporateResults 5 [] 0, RevertVirtualLoss 5, IncorporateResults 7 [] 0,
       RevertVirtualLoss 7, PickMove, PlayMove (kPoint 0)] @ [InjectNoise [] (1 / 4)]) True =
     Some (tree_root demo_tree_fresh_root
       ([SelectLeaf True, AddVirtualLoss 0, IncorporateResults 0 [] 0, RevertVirtualLoss 0,
         InjectNoise [] (1 / 4), SelectLeaf True, AddVirtualLoss 5, SelectLeaf True, AddVirtualLoss 7,
         IncorporateResults 5 [] 0, RevertVirtualLoss 5, IncorporateResults 7 [] 0,
         RevertVirtualLoss 7, PickMove, PlayMove (kPoint 0)] @ [InjectNoise [] (1 / 4)]))"
  by code_simp

end
